theory Spec2Isabelle
  imports Complex_Main
begin

section \<open>Exceptions\<close>

text \<open>
  The Python exceptions that the modelled functions of \<^verbatim>\<open>scripts/blastlca.py\<close> can raise.
  A function that may raise returns \<open>error + 'a\<close>, with \<open>Inl\<close> for the exception.
\<close>

datatype error = AssertionError | IndexError | AttributeError | ValueError

section \<open>Python floats\<close>

text \<open>
  A Python \<^verbatim>\<open>float\<close> is an IEEE 754 binary64 number: a finite value, an infinity or NaN.
  \<open>Finite r\<close> is the float of value \<open>r\<close>; the two zeros are one value, which no operation
  used here tells apart. Comparisons are exact; NaN compares false with everything.
\<close>

datatype pyfloat = Finite real | PosInf | NegInf | NaN

definition is_nan :: "pyfloat \<Rightarrow> bool" where
  "is_nan x = (x = NaN)"

text \<open>\<^verbatim>\<open>x < y\<close> and \<^verbatim>\<open>x <= y\<close> on floats.\<close>

fun flt :: "pyfloat \<Rightarrow> pyfloat \<Rightarrow> bool" where
  "flt NaN y = False"
| "flt x NaN = False"
| "flt (Finite a) (Finite b) = (a < b)"
| "flt (Finite a) PosInf = True"
| "flt (Finite a) NegInf = False"
| "flt PosInf y = False"
| "flt NegInf NegInf = False"
| "flt NegInf y = True"

fun fle :: "pyfloat \<Rightarrow> pyfloat \<Rightarrow> bool" where
  "fle NaN y = False"
| "fle x NaN = False"
| "fle (Finite a) (Finite b) = (a \<le> b)"
| "fle (Finite a) PosInf = True"
| "fle (Finite a) NegInf = False"
| "fle PosInf PosInf = True"
| "fle PosInf y = False"
| "fle NegInf y = True"

text \<open>\<^verbatim>\<open>bool(x)\<close>: a float is false exactly when it is zero; NaN and the infinities are true.\<close>

fun truthy :: "pyfloat \<Rightarrow> bool" where
  "truthy (Finite r) = (r \<noteq> 0)"
| "truthy x = True"

text \<open>
  Arithmetic rounds the exact result to the nearest binary64 number, ties to the even
  mantissa: 53 bits of mantissa, least exponent \<open>-1074\<close>, and an infinity from \<open>2 ^ 1024\<close> on.
  \<open>bit_length\<close> is \<^verbatim>\<open>int.bit_length\<close>, \<open>ilog2 x\<close> is the floor of the binary logarithm of a
  positive \<open>x\<close>.
\<close>

fun bit_length :: "nat \<Rightarrow> nat" where
  "bit_length n = (if n = 0 then 0 else Suc (bit_length (n div 2)))"

declare bit_length.simps [simp del]

definition ilog2 :: "real \<Rightarrow> int" where
  "ilog2 x =
     (if 1 \<le> x then int (bit_length (nat \<lfloor>x\<rfloor>)) - 1
      else - int (bit_length (nat (\<lceil>1 / x\<rceil> - 1))))"

definition round_half_even :: "real \<Rightarrow> int" where
  "round_half_even x =
     (let f = \<lfloor>x\<rfloor>; d = x - of_int f
      in if d < 1 / 2 then f
         else if 1 / 2 < d then f + 1
         else if even f then f else f + 1)"

definition round64 :: "real \<Rightarrow> pyfloat" where
  "round64 x =
     (if x = 0 then Finite 0
      else (let e = max (ilog2 \<bar>x\<bar> - 52) (- 1074);
                r = of_int (round_half_even (x / 2 powi e)) * 2 powi e
            in if 2 ^ 1024 \<le> \<bar>r\<bar> then (if 0 < x then PosInf else NegInf)
               else Finite r))"

text \<open>\<^verbatim>\<open>x * y\<close> and \<^verbatim>\<open>x - y\<close> on floats.\<close>

fun fmul :: "pyfloat \<Rightarrow> pyfloat \<Rightarrow> pyfloat" where
  "fmul NaN y = NaN"
| "fmul x NaN = NaN"
| "fmul (Finite a) (Finite b) = round64 (a * b)"
| "fmul (Finite a) PosInf = (if a = 0 then NaN else if 0 < a then PosInf else NegInf)"
| "fmul (Finite a) NegInf = (if a = 0 then NaN else if 0 < a then NegInf else PosInf)"
| "fmul PosInf (Finite b) = (if b = 0 then NaN else if 0 < b then PosInf else NegInf)"
| "fmul NegInf (Finite b) = (if b = 0 then NaN else if 0 < b then NegInf else PosInf)"
| "fmul PosInf PosInf = PosInf"
| "fmul PosInf NegInf = NegInf"
| "fmul NegInf PosInf = NegInf"
| "fmul NegInf NegInf = PosInf"

fun fsub :: "pyfloat \<Rightarrow> pyfloat \<Rightarrow> pyfloat" where
  "fsub NaN y = NaN"
| "fsub x NaN = NaN"
| "fsub (Finite a) (Finite b) = round64 (a - b)"
| "fsub (Finite a) PosInf = NegInf"
| "fsub (Finite a) NegInf = PosInf"
| "fsub PosInf PosInf = NaN"
| "fsub PosInf y = PosInf"
| "fsub NegInf NegInf = NaN"
| "fsub NegInf y = NegInf"

section \<open>BlastHits\<close>

text \<open>
  \<^verbatim>\<open>BlastHits()\<close> holds two deques, \<^verbatim>\<open>names\<close> and \<^verbatim>\<open>bitscores\<close>; the bitscores are floats.
\<close>

record BlastHits =
  names :: "string list"
  bitscores :: "pyfloat list"

definition BlastHits_init :: BlastHits where
  "BlastHits_init = \<lparr>names = [], bitscores = []\<rparr>"

text \<open>
  \<^verbatim>\<open>bisect.bisect_left(a, x)\<close>: the binary search of the standard library,
  \<^verbatim>\<open>lo, hi = 0, len(a); while lo < hi: mid = (lo + hi) // 2;
         if a[mid] < x: lo = mid + 1 else: hi = mid; return lo\<close>.
\<close>

function bisect_loop :: "pyfloat list \<Rightarrow> pyfloat \<Rightarrow> nat \<Rightarrow> nat \<Rightarrow> nat" where
  "bisect_loop a x lo hi =
     (if lo < hi
      then (let mid = (lo + hi) div 2
            in if flt (a ! mid) x then bisect_loop a x (mid + 1) hi else bisect_loop a x lo mid)
      else lo)"
  by pat_completeness auto
termination
  by (relation "measure (\<lambda>(a, x, lo, hi). hi - lo)") auto

declare bisect_loop.simps [simp del]

definition bisect_left :: "pyfloat list \<Rightarrow> pyfloat \<Rightarrow> nat" where
  "bisect_left a x = bisect_loop a x 0 (length a)"

text \<open>\<^verbatim>\<open>deque.insert(i, x)\<close> for \<open>0 \<le> i\<close>; an index past the end appends.\<close>

definition insert_at :: "nat \<Rightarrow> 'a \<Rightarrow> 'a list \<Rightarrow> 'a list" where
  "insert_at i x xs = take i xs @ x # drop i xs"

text \<open>
  \<^verbatim>\<open>BlastHits.add(taxonomy, bitscore, max_hits=10, top_fraction=None)\<close>, after
  \<^verbatim>\<open>bitscore = float(bitscore)\<close>: the model takes the float. \<^verbatim>\<open>top_fraction\<close> is \<open>None\<close> or a
  float (an \<^verbatim>\<open>int\<close> such as 1 is the float of the same value). The tests
  \<^verbatim>\<open>if top_fraction and self.bitscores\<close> and \<^verbatim>\<open>if bitscore\<close> are Python truthiness: a float is
  true when it is not zero, a deque when it is not empty, \<^verbatim>\<open>None\<close> never.
  \<^verbatim>\<open>self.bitscores[-1]\<close> is the last element. The body is cut into its three steps.
\<close>

text \<open>Lines 342 to 344: the bitscore, or \<open>None\<close> when the top-fraction test rejects it.\<close>

definition cutoff :: "BlastHits \<Rightarrow> pyfloat \<Rightarrow> pyfloat option \<Rightarrow> pyfloat option" where
  "cutoff self bitscore top_fraction =
     (case top_fraction of
        None \<Rightarrow> Some bitscore
      | Some tf \<Rightarrow>
          if truthy tf \<and> bitscores self \<noteq> []
          then (if flt bitscore (fsub (last (bitscores self)) (fmul (last (bitscores self)) tf))
                then None else Some bitscore)
          else Some bitscore)"

text \<open>Lines 348 to 350: both deques get the new entry at the index found by bisection.\<close>

definition insert_hit :: "BlastHits \<Rightarrow> string \<Rightarrow> pyfloat \<Rightarrow> BlastHits" where
  "insert_hit self taxonomy bitscore =
     (let idx = bisect_left (bitscores self) bitscore
      in self\<lparr>bitscores := insert_at idx bitscore (bitscores self),
               names := insert_at idx taxonomy (names self)\<rparr>)"

text \<open>Lines 351 to 354: \<^verbatim>\<open>popleft\<close> on both deques when there are more than \<^verbatim>\<open>max_hits\<close> names.\<close>

definition evict :: "int \<Rightarrow> BlastHits \<Rightarrow> BlastHits" where
  "evict max_hits self =
     (if int (length (names self)) > max_hits
      then self\<lparr>names := tl (names self), bitscores := tl (bitscores self)\<rparr>
      else self)"

definition add :: "BlastHits \<Rightarrow> string \<Rightarrow> pyfloat \<Rightarrow> int \<Rightarrow> pyfloat option \<Rightarrow> BlastHits" where
  "add self taxonomy bitscore max_hits top_fraction =
     (case cutoff self bitscore top_fraction of
        None \<Rightarrow> self
      | Some b \<Rightarrow>
          if truthy b then evict max_hits (insert_hit self taxonomy b)
          else self)"

text \<open>
  A sequence of \<^verbatim>\<open>add\<close> calls on one accumulator; a call is
  \<open>(taxonomy, bitscore, max_hits, top_fraction)\<close>.
\<close>

type_synonym add_call = "string \<times> pyfloat \<times> int \<times> pyfloat option"

fun adds :: "BlastHits \<Rightarrow> add_call list \<Rightarrow> BlastHits" where
  "adds self [] = self"
| "adds self ((taxonomy, bitscore, max_hits, top_fraction) # cs) =
     adds (add self taxonomy bitscore max_hits top_fraction) cs"

text \<open>The same with one \<^verbatim>\<open>max_hits\<close> for every call, starting from the empty accumulator.\<close>

definition adds_fixed :: "int \<Rightarrow> (string \<times> pyfloat \<times> pyfloat option) list \<Rightarrow> BlastHits" where
  "adds_fixed max_hits cs =
     adds BlastHits_init
       (map (\<lambda>(taxonomy, bitscore, top_fraction). (taxonomy, bitscore, max_hits, top_fraction)) cs)"

text \<open>
  The invariant that \<^verbatim>\<open>add\<close> keeps as long as no score is NaN: scores in non-decreasing
  order, none of them NaN, one name per score.
\<close>

definition hits_inv :: "BlastHits \<Rightarrow> bool" where
  "hits_inv self =
     (sorted_wrt fle (bitscores self) \<and> (\<forall>y \<in> set (bitscores self). \<not> is_nan y) \<and>
      length (names self) = length (bitscores self))"

section \<open>Counter\<close>

text \<open>
  \<^verbatim>\<open>collections.Counter(items)\<close> is a dictionary from each element to the number of its
  occurrences; its keys are in the order in which they first occur (the insertion order of a
  dictionary). It is modelled as the association list of its \<^verbatim>\<open>items()\<close>.
\<close>

definition first_seen :: "'a list \<Rightarrow> 'a list" where
  "first_seen items = rev (remdups (rev items))"

definition Counter :: "'a list \<Rightarrow> ('a \<times> nat) list" where
  "Counter items = map (\<lambda>x. (x, count_list items x)) (first_seen items)"

text \<open>
  \<^verbatim>\<open>most_common()\<close> is \<^verbatim>\<open>sorted(self.items(), key=itemgetter(1), reverse=True)\<close>: a stable sort
  by decreasing count, so that elements with equal counts stay in the order first encountered.
  \<^verbatim>\<open>most_common(n)\<close> gives the first \<open>n\<close> of them.
\<close>

definition most_common :: "('a \<times> nat) list \<Rightarrow> ('a \<times> nat) list" where
  "most_common c = sort_key (\<lambda>(x, n). - int n) c"

definition most_common_n :: "('a \<times> nat) list \<Rightarrow> nat \<Rightarrow> ('a \<times> nat) list" where
  "most_common_n c n = take n (most_common c)"

section \<open>Best hit and majority\<close>

text \<open>\<^verbatim>\<open>best_hit\<close>: \<^verbatim>\<open>return self.names[-1]\<close>, an \<^verbatim>\<open>IndexError\<close> on an empty deque.\<close>

definition best_hit :: "BlastHits \<Rightarrow> error + string" where
  "best_hit self = (if names self = [] then Inl IndexError else Inr (last (names self)))"

text \<open>\<^verbatim>\<open>names.index(x)\<close>: the leftmost index of \<open>x\<close>, a \<^verbatim>\<open>ValueError\<close> when there is none.\<close>

fun index_of :: "'a list \<Rightarrow> 'a \<Rightarrow> nat option" where
  "index_of [] x = None"
| "index_of (y # ys) x = (if y = x then Some 0 else map_option Suc (index_of ys x))"

text \<open>
  \<^verbatim>\<open>majority\<close> returns a name and may change the accumulator (\<^verbatim>\<open>self.names.reverse()\<close> reverses
  in place), so the model returns the result together with the state after the call.
\<close>

definition majority :: "BlastHits \<Rightarrow> (error + string) \<times> BlastHits" where
  "majority self =
     (if length (names self) = card (set (names self)) then (best_hit self, self)
      else (case most_common_n (Counter (names self)) 1 of
              [] \<Rightarrow> (Inl IndexError, self)
            | (most_common', _) # _ \<Rightarrow>
                (let self' = self\<lparr>names := rev (names self)\<rparr>
                 in case index_of (names self') most_common' of
                      None \<Rightarrow> (Inl ValueError, self')
                    | Some idx \<Rightarrow> (Inr (names self' ! idx), self'))))"

section \<open>Tree\<close>

record Node =
  taxonomy :: string
  node_id :: string
  parent_id :: string

text \<open>
  \<^verbatim>\<open>self.tree\<close> is a \<^verbatim>\<open>defaultdict(dict)\<close> from taxonomy names and taxonomy ids to nodes.
  Reading a key that is absent stores an empty \<^verbatim>\<open>dict\<close> under it and returns that, and the
  attribute access that follows (\<^verbatim>\<open>.node_id\<close>, \<^verbatim>\<open>.parent_id\<close>, \<^verbatim>\<open>.taxonomy\<close>) raises
  \<^verbatim>\<open>AttributeError\<close>, at that read and at every later one. A key without a node is therefore
  \<open>None\<close> in the model, and reading it is an \<^verbatim>\<open>AttributeError\<close>.
\<close>

type_synonym tree = "string \<rightharpoonup> Node"

subsection \<open>Construction\<close>

text \<open>
  \<^verbatim>\<open>line.strip().split("\t")\<close> on text of ASCII characters: \<^verbatim>\<open>strip\<close> removes the white space at
  both ends, \<^verbatim>\<open>split\<close> cuts at every tab and always returns at least one field.
\<close>

abbreviation TAB :: char where
  "TAB \<equiv> CHR 0x09"

definition isspace :: "char \<Rightarrow> bool" where
  "isspace c = (c \<in> set [CHR 0x09, CHR 0x0A, CHR 0x0B, CHR 0x0C, CHR 0x0D,
                           CHR 0x1C, CHR 0x1D, CHR 0x1E, CHR 0x1F, CHR 0x20])"

definition strip :: "string \<Rightarrow> string" where
  "strip s = rev (dropWhile isspace (rev (dropWhile isspace s)))"

fun split :: "char \<Rightarrow> string \<Rightarrow> string list" where
  "split sep [] = [[]]"
| "split sep (c # cs) =
     (if c = sep then [] # split sep cs
      else (c # hd (split sep cs)) # tl (split sep cs))"

text \<open>\<^verbatim>\<open>toks[i]\<close> for \<open>i \<ge> 0\<close>: an \<^verbatim>\<open>IndexError\<close> past the end.\<close>

definition item :: "'a list \<Rightarrow> nat \<Rightarrow> error + 'a" where
  "item xs i = (if i < length xs then Inr (xs ! i) else Inl IndexError)"

text \<open>
  Lines 57 and 58:
  \<^verbatim>\<open>if not toks[1] == '1' and not toks[2] == '1': assert not toks[1] == toks[2]\<close>.
  The conjunction reads \<^verbatim>\<open>toks[2]\<close> only when \<^verbatim>\<open>toks[1]\<close> is not \<^verbatim>\<open>'1'\<close>.
\<close>

definition check_ids :: "string list \<Rightarrow> error + unit" where
  "check_ids toks =
     (case item toks 1 of
        Inl e \<Rightarrow> Inl e
      | Inr t1 \<Rightarrow>
          if t1 \<noteq> ''1''
          then (case item toks 2 of
                  Inl e \<Rightarrow> Inl e
                | Inr t2 \<Rightarrow>
                    if t2 \<noteq> ''1''
                    then (if t1 = t2 then Inl AssertionError else Inr ())
                    else Inr ())
          else Inr ())"

definition add_node :: "tree \<Rightarrow> string \<Rightarrow> string \<Rightarrow> string \<Rightarrow> tree" where
  "add_node tree tax nid pid =
     (let tree' = tree(tax \<mapsto> \<lparr>taxonomy = tax, node_id = nid, parent_id = pid\<rparr>)
      in tree'(nid := tree' tax))"

text \<open>
  \<^verbatim>\<open>Tree.__init__\<close> over the lines of the file. The state is the dictionary together with the
  warnings logged so far (the stripped lines that were skipped).
\<close>

fun Tree_lines :: "tree \<times> string list \<Rightarrow> string list \<Rightarrow> error + (tree \<times> string list)" where
  "Tree_lines st [] = Inr st"
| "Tree_lines (tree, warnings) (line # lines) =
     (let toks = split TAB (strip line)
      in case check_ids toks of
           Inl e \<Rightarrow> Inl e
         | Inr _ \<Rightarrow>
             if length toks \<noteq> 3 then Tree_lines (tree, warnings @ [strip line]) lines
             else Tree_lines (add_node tree (toks ! 0) (toks ! 1) (toks ! 2), warnings) lines)"

definition Tree_init :: "string list \<Rightarrow> error + (tree \<times> string list)" where
  "Tree_init lines = Tree_lines (Map.empty, []) lines"

subsection \<open>Lowest common ancestor\<close>

text \<open>Lines 106 to 110: the threshold that \<^verbatim>\<open>lca\<close> goes on with.\<close>

definition effective_threshold :: "real \<Rightarrow> real" where
  "effective_threshold threshold =
     (if threshold > 1 then 1
      else if threshold < 1 / 100 then 1 / 10
      else threshold)"

text \<open>
  The \<^verbatim>\<open>while\<close> loop of \<^verbatim>\<open>lca\<close> (lines 122 to 127) for one taxonomy. It ends with
  \<open>Inr (Some name, counts)\<close> at the \<^verbatim>\<open>return\<close> inside the loop, with \<open>Inr (None, counts)\<close>
  when \<^verbatim>\<open>current_taxonomy\<close> reaches \<^verbatim>\<open>"1"\<close>, and with \<open>Inl AttributeError\<close> when a key has no
  node. On a cyclic dictionary it does not end: the result is \<open>None\<close>.
  \<^verbatim>\<open>count_taxonomies\<close> is a \<^verbatim>\<open>defaultdict(int)\<close>: a function with default 0.
\<close>

partial_function (option) lca_walk ::
  "tree \<Rightarrow> real \<Rightarrow> (string \<Rightarrow> nat) \<Rightarrow> string \<Rightarrow> (error + string option \<times> (string \<Rightarrow> nat)) option" where
  "lca_walk tree count_target count_taxonomies current_taxonomy =
     (if current_taxonomy = ''1'' then Some (Inr (None, count_taxonomies))
      else (let counts = count_taxonomies(current_taxonomy := count_taxonomies current_taxonomy + 1)
            in if real (counts current_taxonomy) \<ge> count_target
               then (case tree current_taxonomy of
                       None \<Rightarrow> Some (Inl AttributeError)
                     | Some n \<Rightarrow> Some (Inr (Some (taxonomy n), counts)))
               else (case tree current_taxonomy of
                       None \<Rightarrow> Some (Inl AttributeError)
                     | Some n \<Rightarrow> lca_walk tree count_target counts (parent_id n))))"

text \<open>
  The \<^verbatim>\<open>for\<close> loop of \<^verbatim>\<open>lca\<close>. Only the first read, \<^verbatim>\<open>self.tree[taxonomy].node_id\<close>, is inside
  the \<^verbatim>\<open>try\<close>: there an \<^verbatim>\<open>AttributeError\<close> skips the taxonomy.
\<close>

fun lca_loop :: "tree \<Rightarrow> real \<Rightarrow> (string \<Rightarrow> nat) \<Rightarrow> string list \<Rightarrow> (error + string) option" where
  "lca_loop tree count_target count_taxonomies [] = Some (Inr ''root'')"
| "lca_loop tree count_target count_taxonomies (tax # taxonomies) =
     (case tree tax of
        None \<Rightarrow> lca_loop tree count_target count_taxonomies taxonomies
      | Some n \<Rightarrow>
          (case lca_walk tree count_target count_taxonomies (node_id n) of
             None \<Rightarrow> None
           | Some (Inl e) \<Rightarrow> Some (Inl e)
           | Some (Inr (Some name, _)) \<Rightarrow> Some (Inr name)
           | Some (Inr (None, counts)) \<Rightarrow> lca_loop tree count_target counts taxonomies))"

definition lca :: "tree \<Rightarrow> string list \<Rightarrow> real \<Rightarrow> (error + string) option" where
  "lca tree taxonomies threshold =
     lca_loop tree (real (length taxonomies) * effective_threshold threshold) (\<lambda>_. 0) taxonomies"

subsection \<open>Filtering by depth\<close>

text \<open>
  The \<^verbatim>\<open>while\<close> loop of \<^verbatim>\<open>filter_taxonomy_list\<close> (lines 158 to 160): the number of parent steps
  from \<^verbatim>\<open>current_taxonomy\<close> to \<^verbatim>\<open>"1"\<close>; \<open>None\<close> when the loop does not end.
\<close>

partial_function (option) depth_walk :: "tree \<Rightarrow> nat \<Rightarrow> string \<Rightarrow> (error + nat) option" where
  "depth_walk tree tree_depth current_taxonomy =
     (if current_taxonomy = ''1'' then Some (Inr tree_depth)
      else (case tree current_taxonomy of
              None \<Rightarrow> Some (Inl AttributeError)
            | Some n \<Rightarrow> depth_walk tree (tree_depth + 1) (parent_id n)))"

text \<open>
  The \<^verbatim>\<open>for\<close> loop of \<^verbatim>\<open>filter_taxonomy_list\<close>. The \<^verbatim>\<open>try\<close> around the first read catches
  \<^verbatim>\<open>TypeError\<close>; a key without a node raises \<^verbatim>\<open>AttributeError\<close>, which is not caught.
\<close>

fun filter_loop :: "tree \<Rightarrow> int \<Rightarrow> string list \<Rightarrow> string list \<Rightarrow> (error + string list) option" where
  "filter_loop tree min_tree_depth filtered_list [] = Some (Inr filtered_list)"
| "filter_loop tree min_tree_depth filtered_list (tax # taxonomy_list) =
     (case tree tax of
        None \<Rightarrow> Some (Inl AttributeError)
      | Some n \<Rightarrow>
          (case depth_walk tree 0 (node_id n) of
             None \<Rightarrow> None
           | Some (Inl e) \<Rightarrow> Some (Inl e)
           | Some (Inr tree_depth) \<Rightarrow>
               if int tree_depth < min_tree_depth
               then filter_loop tree min_tree_depth filtered_list taxonomy_list
               else filter_loop tree min_tree_depth (filtered_list @ [tax]) taxonomy_list))"

definition filter_taxonomy_list :: "tree \<Rightarrow> string list \<Rightarrow> int \<Rightarrow> (error + string list) option" where
  "filter_taxonomy_list tree taxonomy_list min_tree_depth =
     filter_loop tree min_tree_depth [] taxonomy_list"

subsection \<open>Lineage\<close>

text \<open>
  \<^verbatim>\<open>taxonomic_lineage\<close> (lines 181 to 186): the ids from the root \<^verbatim>\<open>"1"\<close> down to the taxonomy.
  \<open>lineage_walk\<close> is its \<^verbatim>\<open>while\<close> loop, \<open>None\<close> when the loop does not end.
\<close>

partial_function (option) lineage_walk ::
  "tree \<Rightarrow> string \<Rightarrow> string list \<Rightarrow> (error + string list) option" where
  "lineage_walk tree taxonomy_id lineage =
     (if taxonomy_id = ''1'' then Some (Inr lineage)
      else (case tree taxonomy_id of
              None \<Rightarrow> Some (Inl AttributeError)
            | Some n \<Rightarrow> lineage_walk tree (parent_id n) (parent_id n # lineage)))"

definition taxonomic_lineage :: "tree \<Rightarrow> string \<Rightarrow> (error + string list) option" where
  "taxonomic_lineage tree tax =
     (case tree tax of
        None \<Rightarrow> Some (Inl AttributeError)
      | Some n \<Rightarrow> lineage_walk tree (node_id n) [node_id n])"

section \<open>Nettleton p-value\<close>

text \<open>\<^verbatim>\<open>item_counts[key]\<close> on a \<^verbatim>\<open>Counter\<close>: the count of the key, 0 when it is absent.\<close>

definition count_of :: "('a \<times> nat) list \<Rightarrow> 'a \<Rightarrow> nat" where
  "count_of c key = (case map_of c key of None \<Rightarrow> 0 | Some n \<Rightarrow> n)"

text \<open>
  Lines 564 to 573: the count that the count of \<^verbatim>\<open>key\<close> is compared with, called
  \<^verbatim>\<open>max_count\<close>. \<^verbatim>\<open>most_common()[1]\<close> raises \<^verbatim>\<open>IndexError\<close> when there is one distinct item
  only, and the handler sets 0.
\<close>

definition max_count :: "'a list \<Rightarrow> 'a \<Rightarrow> error + nat" where
  "max_count items key =
     (let item_counts = Counter items
      in case item (most_common item_counts) 0 of
           Inl e \<Rightarrow> Inl e
         | Inr first \<Rightarrow>
             if fst first = key
             then (case item (most_common item_counts) 1 of
                     Inl e \<Rightarrow> Inr 0
                   | Inr second \<Rightarrow> Inr (snd second))
             else Inr (snd first))"

text \<open>
  \<^verbatim>\<open>math.log\<close> and \<^verbatim>\<open>math.sqrt\<close> raise \<^verbatim>\<open>ValueError\<close> outside their domains; \<^verbatim>\<open>math.erfc\<close> is
  the complementary error function, \<open>1 - erf x\<close>, with \<open>erf\<close> given by its power series.
  Floats are modelled as reals.
\<close>

definition py_log :: "real \<Rightarrow> error + real" where
  "py_log x = (if x \<le> 0 then Inl ValueError else Inr (ln x))"

definition py_sqrt :: "real \<Rightarrow> error + real" where
  "py_sqrt x = (if x < 0 then Inl ValueError else Inr (sqrt x))"

definition erfc :: "real \<Rightarrow> real" where
  "erfc x = 1 - 2 / sqrt pi * (\<Sum>n. (- 1) ^ n * x ^ (2 * n + 1) / (fact n * real (2 * n + 1)))"

text \<open>
  Lines 574 to 585, for \<open>c1 = item_counts[key]\<close> and \<open>c2 = max_count\<close> with \<open>c2 < c1\<close>:
  the statistic \<open>t\<close>, with the \<^verbatim>\<open>except ValueError\<close> branch, and \<^verbatim>\<open>erfc(sqrt(t / 2))\<close>.
\<close>

definition nettleton_t :: "nat \<Rightarrow> nat \<Rightarrow> error + real" where
  "nettleton_t c1 c2 =
     (let fallback = (case py_log (2 * real c1 / (real c2 + real c1)) of
                        Inl e \<Rightarrow> Inl e
                      | Inr l1 \<Rightarrow> Inr (2 * (real c1 * l1)))
      in case py_log ((2 * real c2) / (real c2 + real c1)) of
           Inl e \<Rightarrow> fallback
         | Inr l2 \<Rightarrow>
             (case py_log (2 * real c1 / (real c2 + real c1)) of
                Inl e \<Rightarrow> fallback
              | Inr l1 \<Rightarrow> Inr (2 * (real c2 * l2 + real c1 * l1))))"

definition nettleton_pvalue :: "'a list \<Rightarrow> 'a \<Rightarrow> error + real" where
  "nettleton_pvalue items key =
     (if key \<notin> set items then Inl AssertionError
      else if length items = 1 then Inr 1
      else (case max_count items key of
              Inl e \<Rightarrow> Inl e
            | Inr c2 \<Rightarrow>
                if count_of (Counter items) key \<le> c2 then Inr 1
                else (case nettleton_t (count_of (Counter items) key) c2 of
                        Inl e \<Rightarrow> Inl e
                      | Inr t \<Rightarrow>
                          (case py_sqrt (t / 2) of
                             Inl e \<Rightarrow> Inl e
                           | Inr r \<Rightarrow> Inr (erfc r)))))"

section \<open>Ancestors and well-formed trees\<close>

text \<open>
  \<open>climbs tree x p\<close>: following \<^verbatim>\<open>parent_id\<close> from the key \<open>x\<close> reaches \<^verbatim>\<open>"1"\<close> after finitely
  many steps, and \<open>p\<close> lists the keys met on the way, \<open>x\<close> first and \<^verbatim>\<open>"1"\<close> left out. This is
  the walk that the loops of \<^verbatim>\<open>lca\<close>, \<^verbatim>\<open>filter_taxonomy_list\<close> and \<^verbatim>\<open>taxonomic_lineage\<close> make.
\<close>

inductive climbs :: "tree \<Rightarrow> string \<Rightarrow> string list \<Rightarrow> bool" where
  climbs_root: "climbs tree ''1'' []"
| climbs_step: "x \<noteq> ''1'' \<Longrightarrow> tree x = Some n \<Longrightarrow> climbs tree (parent_id n) p \<Longrightarrow> climbs tree x (x # p)"

text \<open>The keys on the walk from \<open>x\<close> up to the root, \<open>x\<close> and \<^verbatim>\<open>"1"\<close> included.\<close>

definition ancestors :: "tree \<Rightarrow> string \<Rightarrow> string set" where
  "ancestors tree x = {y. \<exists>p. climbs tree x p \<and> y \<in> set (p @ [''1''])}"

text \<open>The ids in the lineage of a taxonomy, as \<^verbatim>\<open>taxonomic_lineage\<close> returns it.\<close>

definition taxon_lineage :: "tree \<Rightarrow> string \<Rightarrow> string set" where
  "taxon_lineage tree t =
     (case taxonomic_lineage tree t of Some (Inr lineage) \<Rightarrow> set lineage | _ \<Rightarrow> {})"

text \<open>A well-formed tree: every node reaches the root \<^verbatim>\<open>"1"\<close> by finitely many parent steps.\<close>

definition wf_tree :: "tree \<Rightarrow> bool" where
  "wf_tree tree = (\<forall>k n. tree k = Some n \<longrightarrow> (\<exists>p. climbs tree (node_id n) p))"

text \<open>
  What the \<^verbatim>\<open>while\<close> loop of \<^verbatim>\<open>lca\<close> does along a path of keys: it counts each key and stops
  at the first one whose count reaches the target. Used in the proofs only.
\<close>

fun scan :: "(string \<Rightarrow> nat) \<Rightarrow> real \<Rightarrow> string list \<Rightarrow> string option \<times> (string \<Rightarrow> nat)" where
  "scan counts target [] = (None, counts)"
| "scan counts target (x # p) =
     (if real (counts x + 1) \<ge> target then (Some x, counts(x := counts x + 1))
      else scan (counts(x := counts x + 1)) target p)"

section \<open>The accumulator keeps its scores sorted\<close>

lemma fle_refl: "\<not> is_nan a \<Longrightarrow> fle a a"
  by (cases a) (simp_all add: is_nan_def)

lemma fle_trans: "fle a b \<Longrightarrow> fle b c \<Longrightarrow> fle a c"
  by (cases a; cases b; cases c) simp_all

lemma flt_imp_fle: "flt a b \<Longrightarrow> fle a b"
  by (cases a; cases b) simp_all

lemma fle_flt_trans: "fle a b \<Longrightarrow> flt b c \<Longrightarrow> flt a c"
  by (cases a; cases b; cases c) simp_all

lemma not_flt_imp_fle: "\<not> is_nan a \<Longrightarrow> \<not> is_nan b \<Longrightarrow> \<not> flt a b \<Longrightarrow> fle b a"
  by (cases a; cases b) (simp_all add: is_nan_def)

lemma sorted_wrt_fle_nth:
  assumes "sorted_wrt fle a" "\<forall>y \<in> set a. \<not> is_nan y" "i \<le> j" "j < length a"
  shows "fle (a ! i) (a ! j)"
proof (cases "i = j")
  case True
  then show ?thesis using assms(2,4) by (simp add: fle_refl)
next
  case False
  then have "i < j" using assms(3) by simp
  then show ?thesis using assms(1,4) by (simp add: sorted_wrt_nth_less)
qed

lemma bisect_loop_spec:
  "sorted_wrt fle a \<Longrightarrow> \<forall>y \<in> set a. \<not> is_nan y \<Longrightarrow> \<not> is_nan x \<Longrightarrow>
   lo \<le> hi \<Longrightarrow> hi \<le> length a \<Longrightarrow> (\<forall>i<lo. flt (a ! i) x) \<Longrightarrow>
   (\<forall>i. hi \<le> i \<and> i < length a \<longrightarrow> fle x (a ! i)) \<Longrightarrow>
   lo \<le> bisect_loop a x lo hi \<and> bisect_loop a x lo hi \<le> hi \<and>
   (\<forall>i < bisect_loop a x lo hi. flt (a ! i) x) \<and>
   (\<forall>i. bisect_loop a x lo hi \<le> i \<and> i < length a \<longrightarrow> fle x (a ! i))"
proof (induction a x lo hi rule: bisect_loop.induct)
  case (1 a x lo hi)
  show ?case
  proof (cases "lo < hi")
    case False
    with "1.prems" show ?thesis by (simp add: bisect_loop.simps)
  next
    case True
    define mid where "mid = (lo + hi) div 2"
    have mid: "lo \<le> mid" "mid < hi" using True by (auto simp: mid_def)
    have midlen: "mid < length a" using mid "1.prems" by simp
    have nn: "\<not> is_nan (a ! mid)" using midlen "1.prems"(2) by simp
    show ?thesis
    proof (cases "flt (a ! mid) x")
      case lt: True
      have below: "\<forall>i<mid + 1. flt (a ! i) x"
      proof (intro allI impI)
        fix i assume "i < mid + 1"
        then have "i \<le> mid" by simp
        then have "fle (a ! i) (a ! mid)"
          using "1.prems"(1,2) midlen by (intro sorted_wrt_fle_nth)
        then show "flt (a ! i) x" using lt by (rule fle_flt_trans)
      qed
      have eq: "bisect_loop a x lo hi = bisect_loop a x (mid + 1) hi"
        using True lt by (subst bisect_loop.simps) (simp add: mid_def Let_def)
      have "mid + 1 \<le> bisect_loop a x (mid + 1) hi \<and> bisect_loop a x (mid + 1) hi \<le> hi \<and>
        (\<forall>i < bisect_loop a x (mid + 1) hi. flt (a ! i) x) \<and>
        (\<forall>i. bisect_loop a x (mid + 1) hi \<le> i \<and> i < length a \<longrightarrow> fle x (a ! i))"
        using "1.IH"(1)[OF True mid_def lt "1.prems"(1,2,3)] mid "1.prems" below by simp
      then show ?thesis using eq mid by simp
    next
      case ge: False
      have xm: "fle x (a ! mid)" using nn "1.prems"(3) ge by (intro not_flt_imp_fle)
      have above: "\<forall>i. mid \<le> i \<and> i < length a \<longrightarrow> fle x (a ! i)"
      proof (intro allI impI)
        fix i assume "mid \<le> i \<and> i < length a"
        then have "fle (a ! mid) (a ! i)"
          using "1.prems"(1,2) by (intro sorted_wrt_fle_nth) simp_all
        with xm show "fle x (a ! i)" by (rule fle_trans)
      qed
      have eq: "bisect_loop a x lo hi = bisect_loop a x lo mid"
        using True ge by (subst bisect_loop.simps) (simp add: mid_def Let_def)
      have "lo \<le> bisect_loop a x lo mid \<and> bisect_loop a x lo mid \<le> mid \<and>
        (\<forall>i < bisect_loop a x lo mid. flt (a ! i) x) \<and>
        (\<forall>i. bisect_loop a x lo mid \<le> i \<and> i < length a \<longrightarrow> fle x (a ! i))"
        using "1.IH"(2)[OF True mid_def ge "1.prems"(1,2,3)] mid "1.prems" above by simp
      then show ?thesis using eq mid by simp
    qed
  qed
qed

lemma bisect_left_spec:
  assumes "sorted_wrt fle a" "\<forall>y \<in> set a. \<not> is_nan y" "\<not> is_nan x"
  shows "bisect_left a x \<le> length a"
    and "\<forall>i < bisect_left a x. flt (a ! i) x"
    and "\<forall>i. bisect_left a x \<le> i \<and> i < length a \<longrightarrow> fle x (a ! i)"
proof -
  have "\<forall>i. length a \<le> i \<and> i < length a \<longrightarrow> fle x (a ! i)" by auto
  then have "0 \<le> bisect_loop a x 0 (length a) \<and> bisect_loop a x 0 (length a) \<le> length a \<and>
   (\<forall>i < bisect_loop a x 0 (length a). flt (a ! i) x) \<and>
   (\<forall>i. bisect_loop a x 0 (length a) \<le> i \<and> i < length a \<longrightarrow> fle x (a ! i))"
    using assms by (intro bisect_loop_spec) simp_all
  then show "bisect_left a x \<le> length a"
    and "\<forall>i < bisect_left a x. flt (a ! i) x"
    and "\<forall>i. bisect_left a x \<le> i \<and> i < length a \<longrightarrow> fle x (a ! i)"
    by (simp_all add: bisect_left_def)
qed

lemma sorted_insert_at:
  assumes "sorted_wrt fle a" "\<forall>y \<in> set a. \<not> is_nan y" "\<not> is_nan x"
  shows "sorted_wrt fle (insert_at (bisect_left a x) x a)"
proof -
  let ?r = "bisect_left a x"
  have r: "?r \<le> length a" using bisect_left_spec(1)[OF assms] .
  have lo: "\<forall>y \<in> set (take ?r a). fle y x"
  proof
    fix y assume "y \<in> set (take ?r a)"
    then obtain i where "i < ?r" "y = a ! i" using r
      by (auto simp: in_set_conv_nth)
    then show "fle y x" using bisect_left_spec(2)[OF assms] by (auto intro: flt_imp_fle)
  qed
  have hi: "\<forall>y \<in> set (drop ?r a). fle x y"
  proof
    fix y assume "y \<in> set (drop ?r a)"
    then obtain i where "i < length a - ?r" "y = a ! (?r + i)"
      by (auto simp: in_set_conv_nth)
    then show "fle x y" using bisect_left_spec(3)[OF assms] by auto
  qed
  have "sorted_wrt fle (take ?r a)" "sorted_wrt fle (drop ?r a)"
    using assms(1) by (simp_all add: sorted_wrt_take sorted_wrt_drop)
  moreover have "\<forall>y \<in> set (take ?r a). \<forall>z \<in> set (drop ?r a). fle y z"
    using lo hi fle_trans by blast
  ultimately show ?thesis using lo hi
    by (auto simp: insert_at_def sorted_wrt_append)
qed

lemma length_insert_at: "length (insert_at i x xs) = Suc (length xs)"
  by (simp add: insert_at_def)

lemma insert_at_not_Nil: "insert_at i x xs \<noteq> []"
  by (simp add: insert_at_def)

lemma set_insert_at: "set (insert_at i x xs) = insert x (set xs)"
proof -
  have "set (take i xs) \<union> set (drop i xs) = set xs"
    by (metis append_take_drop_id set_append)
  then show ?thesis by (auto simp: insert_at_def)
qed

lemma zip_insert_at:
  "length xs = length ys \<Longrightarrow> zip (insert_at i x xs) (insert_at i y ys) = insert_at i (x, y) (zip xs ys)"
  by (simp add: insert_at_def take_zip drop_zip)

lemma cutoff_Some: "cutoff self b tf = Some b' \<Longrightarrow> b' = b"
  by (auto simp: cutoff_def split: option.splits if_splits)

lemma hits_inv_insert_hit:
  "hits_inv self \<Longrightarrow> \<not> is_nan b \<Longrightarrow> hits_inv (insert_hit self taxon b)"
  by (simp add: hits_inv_def insert_hit_def Let_def sorted_insert_at length_insert_at set_insert_at)

lemma hits_inv_evict: "hits_inv self \<Longrightarrow> hits_inv (evict max_hits self)"
proof -
  have "set (tl xs) \<subseteq> set xs" for xs :: "pyfloat list" by (cases xs) auto
  moreover have "sorted_wrt fle xs \<Longrightarrow> sorted_wrt fle (tl xs)" for xs by (cases xs) auto
  ultimately show "hits_inv self \<Longrightarrow> hits_inv (evict max_hits self)"
    by (auto simp: hits_inv_def evict_def)
qed

lemma hits_inv_add:
  "hits_inv self \<Longrightarrow> \<not> is_nan b \<Longrightarrow> hits_inv (add self taxon b max_hits tf)"
  by (auto simp: add_def hits_inv_insert_hit hits_inv_evict split: option.split dest: cutoff_Some)

lemma hits_inv_adds:
  "hits_inv self \<Longrightarrow> \<forall>c \<in> set cs. \<not> is_nan (fst (snd c)) \<Longrightarrow> hits_inv (adds self cs)"
  by (induction self cs rule: adds.induct) (simp_all add: hits_inv_add)

lemma hits_inv_init: "hits_inv BlastHits_init"
  by (simp add: hits_inv_def BlastHits_init_def)

lemma length_eq_add:
  "length (names self) = length (bitscores self) \<Longrightarrow>
   length (names (add self taxon b max_hits tf)) = length (bitscores (add self taxon b max_hits tf))"
  by (simp add: add_def evict_def insert_hit_def Let_def length_insert_at split: option.split)

lemma length_eq_adds:
  "length (names self) = length (bitscores self) \<Longrightarrow>
   length (names (adds self cs)) = length (bitscores (adds self cs))"
  by (induction self cs rule: adds.induct) (simp_all add: length_eq_add)

lemma length_evict_insert_hit:
  "int (length (names self)) \<le> max_hits \<Longrightarrow>
   int (length (names (evict max_hits (insert_hit self taxon b)))) \<le> max_hits"
  by (simp add: evict_def insert_hit_def Let_def length_insert_at)

lemma length_add_le:
  "int (length (names self)) \<le> max_hits \<Longrightarrow>
   int (length (names (add self taxon b max_hits tf))) \<le> max_hits"
  by (simp add: add_def length_evict_insert_hit split: option.split)

lemma length_adds_le:
  "int (length (names self)) \<le> max_hits \<Longrightarrow> \<forall>c \<in> set cs. fst (snd (snd c)) = max_hits \<Longrightarrow>
   int (length (names (adds self cs))) \<le> max_hits"
  by (induction self cs rule: adds.induct) (simp_all add: length_add_le)

lemma sorted_wrt_fle_hd_least:
  assumes "sorted_wrt fle xs" "\<forall>y \<in> set xs. \<not> is_nan y" "y \<in> set xs"
  shows "fle (hd xs) y"
proof (cases xs)
  case Nil
  then show ?thesis using assms(3) by simp
next
  case (Cons x xs')
  then show ?thesis using assms by (auto simp: fle_refl)
qed

lemma sorted_wrt_fle_last_greatest:
  assumes "sorted_wrt fle xs" "\<forall>y \<in> set xs. \<not> is_nan y" "y \<in> set xs"
  shows "fle y (last xs)"
proof -
  from assms(3) obtain i where i: "i < length xs" "y = xs ! i" by (auto simp: in_set_conv_nth)
  then have ne: "xs \<noteq> []" by auto
  have "fle (xs ! i) (xs ! (length xs - 1))"
    using assms(1,2) i ne by (intro sorted_wrt_fle_nth) auto
  then show ?thesis using i ne by (simp add: last_conv_nth)
qed

lemma evict_insert_hit_least:
  assumes "hits_inv s" "\<not> is_nan b" "int (length (names (insert_hit s taxon b))) > max_hits"
  shows "\<exists>n m. zip (names (insert_hit s taxon b)) (bitscores (insert_hit s taxon b)) =
                 (n, m) # zip (names (evict max_hits (insert_hit s taxon b)))
                              (bitscores (evict max_hits (insert_hit s taxon b))) \<and>
               (\<forall>y \<in> set (bitscores (insert_hit s taxon b)). fle m y)"
proof -
  let ?s' = "insert_hit s taxon b"
  have inv: "hits_inv ?s'" using assms(1,2) by (rule hits_inv_insert_hit)
  have "bitscores ?s' \<noteq> []" "names ?s' \<noteq> []"
    by (simp_all add: insert_hit_def Let_def insert_at_not_Nil)
  then obtain n ns m ms where c: "names ?s' = n # ns" "bitscores ?s' = m # ms"
    by (metis list.exhaust)
  have "\<forall>y \<in> set (bitscores ?s'). fle (hd (bitscores ?s')) y"
    using inv by (auto simp: hits_inv_def intro: sorted_wrt_fle_hd_least)
  then have "\<forall>y \<in> set (bitscores ?s'). fle m y" using c by simp
  moreover have "zip (names ?s') (bitscores ?s') =
      (n, m) # zip (names (evict max_hits ?s')) (bitscores (evict max_hits ?s'))"
    using assms(3) c by (simp add: evict_def)
  ultimately show ?thesis by blast
qed

lemma zip_insert_hit:
  "length (names s) = length (bitscores s) \<Longrightarrow>
   zip (names (insert_hit s taxon b)) (bitscores (insert_hit s taxon b)) =
     insert_at (bisect_left (bitscores s) b) (taxon, b) (zip (names s) (bitscores s))"
  by (simp add: insert_hit_def Let_def zip_insert_at)

text \<open>
  C8, as the code has it. Invariant of \<^verbatim>\<open>BlastHits\<close> under every sequence of \<^verbatim>\<open>add\<close> calls with a
  fixed \<^verbatim>\<open>max_hits\<close>, started on the empty accumulator: \<^verbatim>\<open>names\<close> and \<^verbatim>\<open>bitscores\<close> have the
  same length; when \<^verbatim>\<open>max_hits\<close> is not negative, that length never exceeds \<^verbatim>\<open>max_hits\<close>; and
  when none of the added bitscores is NaN, the stored bitscores are in non-decreasing order
  and, whenever a further call with a bitscore that is not NaN inserts its hit and the
  insertion makes the size exceed \<^verbatim>\<open>max_hits\<close>, the new (name, bitscore) pair has gone into the
  sequence of pairs at the bisection index and the state after the call is that sequence
  without its leftmost pair, whose bitscore is the lowest of all.
\<close>

theorem blasthits_invariant:
  assumes "s = adds_fixed max_hits cs"
  shows "length (names s) = length (bitscores s) \<and>
         (0 \<le> max_hits \<longrightarrow> int (length (names s)) \<le> max_hits) \<and>
         ((\<forall>c \<in> set cs. \<not> is_nan (fst (snd c))) \<longrightarrow>
            sorted_wrt fle (bitscores s) \<and>
            (\<not> is_nan b \<and> cutoff s b tf = Some b \<and> truthy b \<and>
             int (length (names (insert_hit s taxon b))) > max_hits \<longrightarrow>
               zip (names (insert_hit s taxon b)) (bitscores (insert_hit s taxon b)) =
                 insert_at (bisect_left (bitscores s) b) (taxon, b) (zip (names s) (bitscores s)) \<and>
               (\<exists>n m. zip (names (insert_hit s taxon b)) (bitscores (insert_hit s taxon b)) =
                        (n, m) # zip (names (add s taxon b max_hits tf))
                                     (bitscores (add s taxon b max_hits tf)) \<and>
                      (\<forall>y \<in> set (bitscores (insert_hit s taxon b)). fle m y))))"
proof -
  let ?cs = "map (\<lambda>(taxonomy, bitscore, top_fraction). (taxonomy, bitscore, max_hits, top_fraction)) cs"
  have s: "s = adds BlastHits_init ?cs" using assms by (simp add: adds_fixed_def)
  have len: "length (names s) = length (bitscores s)"
    unfolding s by (rule length_eq_adds) (simp add: BlastHits_init_def)
  have bound: "int (length (names s)) \<le> max_hits" if "0 \<le> max_hits"
    unfolding s using that by (intro length_adds_le) (auto simp: BlastHits_init_def)
  have inv: "hits_inv s" if "\<forall>c \<in> set cs. \<not> is_nan (fst (snd c))"
    unfolding s using that by (intro hits_inv_adds hits_inv_init) auto
  have ev: "zip (names (insert_hit s taxon b)) (bitscores (insert_hit s taxon b)) =
                 insert_at (bisect_left (bitscores s) b) (taxon, b) (zip (names s) (bitscores s)) \<and>
               (\<exists>n m. zip (names (insert_hit s taxon b)) (bitscores (insert_hit s taxon b)) =
                        (n, m) # zip (names (add s taxon b max_hits tf))
                                     (bitscores (add s taxon b max_hits tf)) \<and>
                      (\<forall>y \<in> set (bitscores (insert_hit s taxon b)). fle m y))"
    if nn: "\<forall>c \<in> set cs. \<not> is_nan (fst (snd c))"
      and h: "\<not> is_nan b \<and> cutoff s b tf = Some b \<and> truthy b \<and>
             int (length (names (insert_hit s taxon b))) > max_hits"
  proof -
    from h have eq: "add s taxon b max_hits tf = evict max_hits (insert_hit s taxon b)"
      by (simp add: add_def)
    from evict_insert_hit_least[where s = s and b = b and taxon = taxon and max_hits = max_hits]
      inv[OF nn] h eq zip_insert_hit[OF len]
    show ?thesis by simp
  qed
  have srt: "sorted_wrt fle (bitscores s)" if "\<forall>c \<in> set cs. \<not> is_nan (fst (snd c))"
    using inv[OF that] by (simp add: hits_inv_def)
  from len bound srt ev show ?thesis by blast
qed

lemmas hits_eval = adds_fixed_def add_def cutoff_def insert_hit_def evict_def bisect_left_def
  bisect_loop.simps insert_at_def BlastHits_init_def Let_def

lemmas float_eval = round64_def ilog2_def round_half_even_def bit_length.simps Let_def

text \<open>
  The example of the specification: after \<^verbatim>\<open>add("A", 10)\<close> and \<^verbatim>\<open>add("B", 20)\<close>, the call
  \<^verbatim>\<open>add("C", 5, max_hits=2)\<close> inserts C at the left and evicts it again.
\<close>

theorem blasthits_invariant_witness:
  "(0::int) \<le> 2 \<and> \<not> is_nan (Finite 10) \<and> \<not> is_nan (Finite 20) \<and>
   \<not> is_nan (Finite 5) \<and> truthy (Finite 5) \<and>
   cutoff (adds_fixed 2 [(''A'', Finite 10, None), (''B'', Finite 20, None)]) (Finite 5) None = Some (Finite 5) \<and>
   sorted_wrt fle (bitscores (adds_fixed 2 [(''A'', Finite 10, None), (''B'', Finite 20, None)])) \<and>
   int (length (names (adds_fixed 2 [(''A'', Finite 10, None), (''B'', Finite 20, None)]))) \<le> 2 \<and>
   zip (names (insert_hit (adds_fixed 2 [(''A'', Finite 10, None), (''B'', Finite 20, None)]) ''C'' (Finite 5)))
       (bitscores (insert_hit (adds_fixed 2 [(''A'', Finite 10, None), (''B'', Finite 20, None)]) ''C'' (Finite 5)))
     = [(''C'', Finite 5), (''A'', Finite 10), (''B'', Finite 20)] \<and>
   zip (names (add (adds_fixed 2 [(''A'', Finite 10, None), (''B'', Finite 20, None)]) ''C'' (Finite 5) 2 None))
       (bitscores (add (adds_fixed 2 [(''A'', Finite 10, None), (''B'', Finite 20, None)]) ''C'' (Finite 5) 2 None))
     = [(''A'', Finite 10), (''B'', Finite 20)]"
proof -
  have s: "adds_fixed 2 [(''A'', Finite 10, None), (''B'', Finite 20, None)] =
      \<lparr>names = [''A'', ''B''], bitscores = [Finite 10, Finite 20]\<rparr>"
    by (simp add: hits_eval)
  have i: "insert_hit \<lparr>names = [''A'', ''B''], bitscores = [Finite 10, Finite 20]\<rparr> ''C'' (Finite 5) =
        \<lparr>names = [''C'', ''A'', ''B''], bitscores = [Finite 5, Finite 10, Finite 20]\<rparr>"
    by (simp add: hits_eval)
  have c: "cutoff \<lparr>names = [''A'', ''B''], bitscores = [Finite 10, Finite 20]\<rparr> (Finite 5) None = Some (Finite 5)"
    by (simp add: cutoff_def)
  show ?thesis
    unfolding s
    using blasthits_invariant [OF s[symmetric], of "Finite 5" None "''C''"]
    by (simp add: i c is_nan_def)
qed

text \<open>
  C8 as stated fails on a NaN score and on a negative \<^verbatim>\<open>max_hits\<close>. Every comparison with NaN
  is false, so the scores 5, NaN, 3, 4, 10 are stored as 3, 4, 10, NaN, 5, which is not in
  non-decreasing order; with \<^verbatim>\<open>max_hits = 1\<close> the scores NaN, 5 leave NaN and evict 5; and with
  \<^verbatim>\<open>max_hits = -1\<close> the accumulator stays empty, its length 0 above the bound.
\<close>

theorem blasthits_invariant_counterexample:
  "bitscores (adds_fixed 10 [(''A'', Finite 5, None), (''B'', NaN, None), (''C'', Finite 3, None),
                           (''D'', Finite 4, None), (''E'', Finite 10, None)]) =
     [Finite 3, Finite 4, Finite 10, NaN, Finite 5] \<and>
   \<not> sorted_wrt fle (bitscores (adds_fixed 10 [(''A'', Finite 5, None), (''B'', NaN, None),
                           (''C'', Finite 3, None), (''D'', Finite 4, None), (''E'', Finite 10, None)])) \<and>
   bitscores (adds_fixed 1 [(''A'', NaN, None), (''B'', Finite 5, None)]) = [NaN] \<and>
   \<not> int (length (names (adds_fixed (- 1) [(''A'', Finite 5, None)]))) \<le> - 1"
  by (simp add: hits_eval)

text \<open>
  C1, as the code has it. For every accumulator reached from the empty one by \<^verbatim>\<open>add\<close> calls
  whose bitscores are not NaN, when it is not empty, \<^verbatim>\<open>top_fraction\<close> is a non-zero float and
  the incoming bitscore is not zero: the last stored score \<open>h\<close> (\<^verbatim>\<open>self.bitscores[-1]\<close>, "the
  best bitscore" of the docstring) is the highest retained one, and \<^verbatim>\<open>add\<close> discards the
  incoming hit exactly when its bitscore is below \<open>h - h * top_fraction\<close>, computed in float
  arithmetic; otherwise the hit is inserted, and the bound \<^verbatim>\<open>max_hits\<close> is applied.
\<close>

theorem add_top_fraction_cutoff:
  assumes "s = adds BlastHits_init cs"
    and "\<forall>c \<in> set cs. \<not> is_nan (fst (snd c))"
    and "bitscores s \<noteq> []" and "truthy tf" and "truthy b"
  shows "(\<forall>y \<in> set (bitscores s). fle y (last (bitscores s))) \<and>
         (cutoff s b (Some tf) = None \<longleftrightarrow>
            flt b (fsub (last (bitscores s)) (fmul (last (bitscores s)) tf))) \<and>
         add s taxon b max_hits (Some tf) =
           (if flt b (fsub (last (bitscores s)) (fmul (last (bitscores s)) tf)) then s
            else evict max_hits (insert_hit s taxon b))"
proof -
  have "hits_inv s"
    unfolding assms(1) using assms(2) by (intro hits_inv_adds hits_inv_init)
  then have "\<forall>y \<in> set (bitscores s). fle y (last (bitscores s))"
    by (auto simp: hits_inv_def intro: sorted_wrt_fle_last_greatest)
  then show ?thesis
    using assms(3,4,5) by (simp add: add_def cutoff_def)
qed

theorem add_top_fraction_cutoff_witness:
  "\<not> is_nan (Finite 10) \<and> \<not> is_nan (Finite 100) \<and>
   bitscores (adds BlastHits_init [(''A'', Finite 10, 10, None), (''B'', Finite 100, 10, None)]) \<noteq> [] \<and>
   truthy (Finite (1 / 2)) \<and> truthy (Finite 20) \<and> truthy (Finite 50) \<and>
   fsub (Finite 100) (fmul (Finite 100) (Finite (1 / 2))) = Finite 50 \<and>
   cutoff (adds BlastHits_init [(''A'', Finite 10, 10, None), (''B'', Finite 100, 10, None)])
     (Finite 20) (Some (Finite (1 / 2))) = None \<and>
   add (adds BlastHits_init [(''A'', Finite 10, 10, None), (''B'', Finite 100, 10, None)])
     ''C'' (Finite 20) 10 (Some (Finite (1 / 2))) =
     adds BlastHits_init [(''A'', Finite 10, 10, None), (''B'', Finite 100, 10, None)] \<and>
   add (adds BlastHits_init [(''A'', Finite 10, 10, None), (''B'', Finite 100, 10, None)])
     ''C'' (Finite 50) 10 (Some (Finite (1 / 2))) =
     \<lparr>names = [''A'', ''C'', ''B''], bitscores = [Finite 10, Finite 50, Finite 100]\<rparr>"
proof -
  have s: "adds BlastHits_init [(''A'', Finite 10, 10, None), (''B'', Finite 100, 10, None)] =
      \<lparr>names = [''A'', ''B''], bitscores = [Finite 10, Finite 100]\<rparr>"
    by (simp add: hits_eval)
  have f: "fsub (Finite 100) (fmul (Finite 100) (Finite (1 / 2))) = Finite 50"
    by (simp add: float_eval)
  have i: "evict 10 (insert_hit \<lparr>names = [''A'', ''B''], bitscores = [Finite 10, Finite 100]\<rparr> ''C'' (Finite 50)) =
      \<lparr>names = [''A'', ''C'', ''B''], bitscores = [Finite 10, Finite 50, Finite 100]\<rparr>"
    by (simp add: hits_eval)
  have nn: "\<forall>c \<in> set [(''A'', Finite 10, 10 :: int, None :: pyfloat option), (''B'', Finite 100, 10, None)].
      \<not> is_nan (fst (snd c))"
    by (simp add: is_nan_def)
  have t1: "truthy (Finite (1 / 2))" and t2: "truthy (Finite 20)" and t3: "truthy (Finite 50)" by simp_all
  have ne: "bitscores \<lparr>names = [''A'', ''B''], bitscores = [Finite 10, Finite 100]\<rparr> \<noteq> []" by simp
  note a = add_top_fraction_cutoff [OF s[symmetric] nn ne t1 t2, of "''C''" 10]
  note b = add_top_fraction_cutoff [OF s[symmetric] nn ne t1 t3, of "''C''" 10]
  have a': "cutoff \<lparr>names = [''A'', ''B''], bitscores = [Finite 10, Finite 100]\<rparr> (Finite 20) (Some (Finite (1 / 2))) = None"
    "add \<lparr>names = [''A'', ''B''], bitscores = [Finite 10, Finite 100]\<rparr> ''C'' (Finite 20) 10 (Some (Finite (1 / 2)))
      = \<lparr>names = [''A'', ''B''], bitscores = [Finite 10, Finite 100]\<rparr>"
    using a by (simp_all add: f del: fsub.simps fmul.simps)
  have b': "add \<lparr>names = [''A'', ''B''], bitscores = [Finite 10, Finite 100]\<rparr> ''C'' (Finite 50) 10 (Some (Finite (1 / 2)))
      = \<lparr>names = [''A'', ''C'', ''B''], bitscores = [Finite 10, Finite 50, Finite 100]\<rparr>"
    using b by (simp add: f i del: fsub.simps fmul.simps)
  show ?thesis
    unfolding s using f a' b' by (simp add: is_nan_def)
qed

text \<open>
  C1 as stated, with the lowest retained bitscore, fails: with 10 and 100 retained and
  \<^verbatim>\<open>top_fraction = 0.5\<close>, the incoming score 20 is not below \<open>10 - 10 * 0.5 = 5\<close>, yet it is
  discarded, since it is below \<open>100 - 100 * 0.5 = 50\<close>.
\<close>

theorem add_top_fraction_lowest_counterexample:
  "bitscores (adds BlastHits_init [(''A'', Finite 10, 10, None), (''B'', Finite 100, 10, None)]) =
     [Finite 10, Finite 100] \<and>
   fsub (Finite 10) (fmul (Finite 10) (Finite (1 / 2))) = Finite 5 \<and>
   \<not> flt (Finite 20) (fsub (Finite 10) (fmul (Finite 10) (Finite (1 / 2)))) \<and>
   cutoff (adds BlastHits_init [(''A'', Finite 10, 10, None), (''B'', Finite 100, 10, None)])
     (Finite 20) (Some (Finite (1 / 2))) = None \<and>
   add (adds BlastHits_init [(''A'', Finite 10, 10, None), (''B'', Finite 100, 10, None)])
     ''C'' (Finite 20) 10 (Some (Finite (1 / 2))) =
     adds BlastHits_init [(''A'', Finite 10, 10, None), (''B'', Finite 100, 10, None)]"
proof -
  have s: "adds BlastHits_init [(''A'', Finite 10, 10, None), (''B'', Finite 100, 10, None)] =
      \<lparr>names = [''A'', ''B''], bitscores = [Finite 10, Finite 100]\<rparr>"
    by (simp add: hits_eval)
  have f: "fsub (Finite 100) (fmul (Finite 100) (Finite (1 / 2))) = Finite 50"
    "fsub (Finite 10) (fmul (Finite 10) (Finite (1 / 2))) = Finite 5"
    by (simp_all add: float_eval)
  have c: "cutoff \<lparr>names = [''A'', ''B''], bitscores = [Finite 10, Finite 100]\<rparr>
     (Finite 20) (Some (Finite (1 / 2))) = None"
    unfolding cutoff_def by (simp add: f del: fsub.simps fmul.simps)
  show ?thesis
    unfolding s by (simp add: add_def c f del: fsub.simps fmul.simps)
qed

text \<open>
  Why NaN scores are left out: after the scores 5, NaN, 3, 4, 10 the last stored score is 5,
  which is not the highest retained one.
\<close>

lemma last_not_highest_after_nan:
  "bitscores (adds BlastHits_init [(''A'', Finite 5, 10, None), (''B'', NaN, 10, None),
      (''C'', Finite 3, 10, None), (''D'', Finite 4, 10, None), (''E'', Finite 10, 10, None)]) =
     [Finite 3, Finite 4, Finite 10, NaN, Finite 5] \<and>
   last [Finite 3, Finite 4, Finite 10, NaN, Finite 5] = Finite 5 \<and>
   flt (Finite 5) (Finite 10)"
  by (simp add: hits_eval)

text \<open>
  The floor is a rounded value. With \<open>h = 9007199254740994\<close> and \<^verbatim>\<open>top_fraction = 0.75\<close> the
  product \<open>6755399441055745.5\<close> is a tie and rounds to the even \<open>6755399441055746\<close>, the floor
  is \<open>2251799813685248\<close>, and a hit of exactly that score is inserted (the exact floor
  \<open>2251799813685248.5\<close> would discard it).
\<close>

lemma cutoff_rounds_to_nearest_even:
  "fmul (Finite 9007199254740994) (Finite (3 / 4)) = Finite 6755399441055746 \<and>
   fsub (Finite 9007199254740994) (fmul (Finite 9007199254740994) (Finite (3 / 4))) =
     Finite 2251799813685248 \<and>
   add \<lparr>names = [''A''], bitscores = [Finite 9007199254740994]\<rparr> ''B'' (Finite 2251799813685248)
       10 (Some (Finite (3 / 4))) =
     \<lparr>names = [''B'', ''A''], bitscores = [Finite 2251799813685248, Finite 9007199254740994]\<rparr>"
proof -
  have f: "fmul (Finite 9007199254740994) (Finite (3 / 4)) = Finite 6755399441055746"
    by (simp add: float_eval)
  have g: "fsub (Finite 9007199254740994) (Finite 6755399441055746) = Finite 2251799813685248"
    by (simp add: float_eval)
  have c: "cutoff \<lparr>names = [''A''], bitscores = [Finite 9007199254740994]\<rparr> (Finite 2251799813685248)
       (Some (Finite (3 / 4))) = Some (Finite 2251799813685248)"
    unfolding cutoff_def by (simp add: f g del: fsub.simps fmul.simps)
  show ?thesis
    by (simp add: f g add_def c insert_hit_def evict_def bisect_left_def bisect_loop.simps
        insert_at_def Let_def del: fsub.simps fmul.simps)
qed

text \<open>
  C10. In every accumulator state, \<^verbatim>\<open>add\<close> with a bitscore equal to zero leaves the
  accumulator unchanged, whatever \<^verbatim>\<open>max_hits\<close> and \<^verbatim>\<open>top_fraction\<close> are: the insertion is
  guarded by the truthiness of the score, and both \<^verbatim>\<open>0.0\<close> and \<^verbatim>\<open>None\<close> are false.
\<close>

theorem add_zero_bitscore_unchanged:
  "add self taxon (Finite 0) max_hits top_fraction = self"
  by (simp add: add_def cutoff_def split: option.split)

section \<open>What majority returns and what it does to the accumulator\<close>

lemma length_card_distinct: "(length xs = card (set xs)) = distinct xs"
  by (metis card_distinct distinct_card)

lemma set_first_seen: "set (first_seen xs) = set xs"
  by (simp add: first_seen_def)

lemma Counter_eq_Nil: "Counter xs = [] \<longleftrightarrow> xs = []"
  using set_first_seen[of xs] by (auto simp: Counter_def simp flip: set_empty)

lemma most_common_eq_Nil: "most_common c = [] \<longleftrightarrow> c = []"
  by (metis most_common_def length_sort length_0_conv)

lemma most_common_n_1_Counter: "xs \<noteq> [] \<Longrightarrow> \<exists>p ps. most_common_n (Counter xs) 1 = p # ps"
  by (cases "most_common (Counter xs)")
     (simp_all add: most_common_n_def most_common_eq_Nil Counter_eq_Nil)

lemma majority_state:
  assumes "\<not> distinct (names s)"
  shows "snd (majority s) = s\<lparr>names := rev (names s)\<rparr>"
proof -
  from assms have "names s \<noteq> []" by auto
  then obtain p ps where "most_common_n (Counter (names s)) 1 = p # ps"
    using most_common_n_1_Counter by blast
  then show ?thesis
    using assms unfolding majority_def length_card_distinct
    by (simp add: Let_def split: prod.split option.split)
qed

lemma zip_eq_iff_fst:
  "length xs = length zs \<Longrightarrow> length ys = length zs \<Longrightarrow> zip xs zs = zip ys zs \<longleftrightarrow> xs = ys"
  by (metis map_fst_zip)

text \<open>
  C9, as the code has it. On an accumulator whose names contain a repeated taxon,
  \<^verbatim>\<open>majority()\<close> replaces \<^verbatim>\<open>names\<close> by its reverse and leaves \<^verbatim>\<open>bitscores\<close> as it is; a subsequent
  \<^verbatim>\<open>best_hit()\<close> returns the name that was at the lowest-bitscore position (index 0). Position
  \<open>i\<close> now pairs the name that was at \<open>n - 1 - i\<close> with the bitscore at \<open>i\<close>, so the
  pairing of names with bitscores is kept exactly when the names read the same in both
  directions, and is broken otherwise.
\<close>

theorem majority_reverses_names:
  assumes "\<not> distinct (names s)"
  shows "snd (majority s) = s\<lparr>names := rev (names s)\<rparr> \<and>
         bitscores (snd (majority s)) = bitscores s \<and>
         best_hit (snd (majority s)) = Inr (hd (names s)) \<and>
         (length (names s) = length (bitscores s) \<longrightarrow>
            (zip (names (snd (majority s))) (bitscores (snd (majority s))) = zip (names s) (bitscores s)
             \<longleftrightarrow> rev (names s) = names s))"
proof -
  from assms have ne: "names s \<noteq> []" by auto
  have st: "snd (majority s) = s\<lparr>names := rev (names s)\<rparr>" using assms by (rule majority_state)
  have bh: "best_hit (s\<lparr>names := rev (names s)\<rparr>) = Inr (hd (names s))"
    using ne by (simp add: best_hit_def last_rev)
  have zp: "zip (rev (names s)) (bitscores s) = zip (names s) (bitscores s) \<longleftrightarrow> rev (names s) = names s"
    if "length (names s) = length (bitscores s)"
    using that by (intro zip_eq_iff_fst) simp_all
  show ?thesis using bh zp by (simp add: st)
qed

theorem majority_reverses_names_witness:
  "\<not> distinct (names \<lparr>names = [''A'', ''A'', ''B''], bitscores = [Finite 1, Finite 2, Finite 3]\<rparr>) \<and>
   snd (majority \<lparr>names = [''A'', ''A'', ''B''], bitscores = [Finite 1, Finite 2, Finite 3]\<rparr>) =
     \<lparr>names = [''B'', ''A'', ''A''], bitscores = [Finite 1, Finite 2, Finite 3]\<rparr> \<and>
   best_hit (snd (majority \<lparr>names = [''A'', ''A'', ''B''], bitscores = [Finite 1, Finite 2, Finite 3]\<rparr>)) = Inr ''A'' \<and>
   zip (names (snd (majority \<lparr>names = [''A'', ''A'', ''B''], bitscores = [Finite 1, Finite 2, Finite 3]\<rparr>)))
       (bitscores (snd (majority \<lparr>names = [''A'', ''A'', ''B''], bitscores = [Finite 1, Finite 2, Finite 3]\<rparr>)))
     \<noteq> zip [''A'', ''A'', ''B''] [Finite 1, Finite 2, Finite 3]"
  using majority_reverses_names [of "\<lparr>names = [''A'', ''A'', ''B''], bitscores = [Finite 1, Finite 2, Finite 3]\<rparr>"]
  by (auto simp: best_hit_def)

text \<open>
  C9 as stated says that the pairing no longer holds after every such call. With the names
  A, A (scores 1, 2) the reversed deque equals the original one: the state and the pairing are
  unchanged.
\<close>

theorem majority_palindrome_counterexample:
  "\<not> distinct (names (adds BlastHits_init [(''A'', Finite 1, 10, None), (''A'', Finite 2, 10, None)])) \<and>
   snd (majority (adds BlastHits_init [(''A'', Finite 1, 10, None), (''A'', Finite 2, 10, None)])) =
     adds BlastHits_init [(''A'', Finite 1, 10, None), (''A'', Finite 2, 10, None)] \<and>
   zip (names (snd (majority (adds BlastHits_init [(''A'', Finite 1, 10, None), (''A'', Finite 2, 10, None)]))))
       (bitscores (snd (majority (adds BlastHits_init [(''A'', Finite 1, 10, None), (''A'', Finite 2, 10, None)]))))
     = [(''A'', Finite 1), (''A'', Finite 2)]"
proof -
  have s: "adds BlastHits_init [(''A'', Finite 1, 10, None), (''A'', Finite 2, 10, None)] =
      \<lparr>names = [''A'', ''A''], bitscores = [Finite 1, Finite 2]\<rparr>"
    by (simp add: hits_eval)
  have m: "majority \<lparr>names = [''A'', ''A''], bitscores = [Finite 1, Finite 2]\<rparr> =
      (Inr ''A'', \<lparr>names = [''A'', ''A''], bitscores = [Finite 1, Finite 2]\<rparr>)"
    unfolding majority_def length_card_distinct
    by (simp add: most_common_n_def most_common_def Counter_def first_seen_def)
  show ?thesis unfolding s m by simp
qed

text \<open>
  C2. On a frequency tie \<^verbatim>\<open>majority()\<close> should return the tied taxon with the highest
  bitscore. With hits (A, 1), (B, 2), (A, 3), (B, 4) both taxa occur twice and B holds the
  highest bitscore, but the code returns A: \<^verbatim>\<open>most_common(1)\<close> is taken before the deque is
  reversed, and \<^verbatim>\<open>names[names.index(most_common)]\<close> is \<^verbatim>\<open>most_common\<close> again.
\<close>

theorem majority_tie_lower_bitscore:
  "zip (names (adds BlastHits_init
         [(''A'', Finite 1, 10, None), (''B'', Finite 2, 10, None), (''A'', Finite 3, 10, None), (''B'', Finite 4, 10, None)]))
       (bitscores (adds BlastHits_init
         [(''A'', Finite 1, 10, None), (''B'', Finite 2, 10, None), (''A'', Finite 3, 10, None), (''B'', Finite 4, 10, None)]))
     = [(''A'', Finite 1), (''B'', Finite 2), (''A'', Finite 3), (''B'', Finite 4)] \<and>
   count_list (names (adds BlastHits_init
         [(''A'', Finite 1, 10, None), (''B'', Finite 2, 10, None), (''A'', Finite 3, 10, None), (''B'', Finite 4, 10, None)])) ''A''
     = count_list (names (adds BlastHits_init
         [(''A'', Finite 1, 10, None), (''B'', Finite 2, 10, None), (''A'', Finite 3, 10, None), (''B'', Finite 4, 10, None)])) ''B'' \<and>
   fst (majority (adds BlastHits_init
         [(''A'', Finite 1, 10, None), (''B'', Finite 2, 10, None), (''A'', Finite 3, 10, None), (''B'', Finite 4, 10, None)]))
     = Inr ''A''"
proof -
  have s: "adds BlastHits_init
      [(''A'', Finite 1, 10, None), (''B'', Finite 2, 10, None), (''A'', Finite 3, 10, None), (''B'', Finite 4, 10, None)] =
      \<lparr>names = [''A'', ''B'', ''A'', ''B''], bitscores = [Finite 1, Finite 2, Finite 3, Finite 4]\<rparr>"
    by (simp add: hits_eval)
  have m: "majority \<lparr>names = [''A'', ''B'', ''A'', ''B''], bitscores = [Finite 1, Finite 2, Finite 3, Finite 4]\<rparr> =
      (Inr ''A'', \<lparr>names = [''B'', ''A'', ''B'', ''A''], bitscores = [Finite 1, Finite 2, Finite 3, Finite 4]\<rparr>)"
    unfolding majority_def length_card_distinct
    by (simp add: most_common_n_def most_common_def Counter_def first_seen_def)
  show ?thesis unfolding s m by simp
qed

section \<open>Tree construction, depth filter and threshold on concrete inputs\<close>

lemmas tree_eval = Tree_init_def Let_def strip_def isspace_def check_ids_def item_def add_node_def
  filter_taxonomy_list_def lca_def lca_walk.simps depth_walk.simps

text \<open>
  C3. Every row that does not have exactly three fields should be skipped with a warning. The
  code reads \<^verbatim>\<open>toks[1]\<close> and \<^verbatim>\<open>toks[2]\<close> before it checks \<^verbatim>\<open>len(toks)\<close>: a blank line (one empty
  field) and a row of two fields whose second field is not \<^verbatim>\<open>'1'\<close> end the construction with
  an \<^verbatim>\<open>IndexError\<close>.
\<close>

theorem tree_init_short_row_raises:
  "split TAB (strip [CHR 0x0A]) = [[]] \<and>
   Tree_init [''root'' @ [TAB] @ ''1'' @ [TAB] @ ''1'' @ [CHR 0x0A], [CHR 0x0A]] = Inl IndexError \<and>
   split TAB (strip (''Bacteria'' @ [TAB] @ ''2'' @ [CHR 0x0A])) = [''Bacteria'', ''2''] \<and>
   Tree_init [''root'' @ [TAB] @ ''1'' @ [TAB] @ ''1'' @ [CHR 0x0A],
              ''Bacteria'' @ [TAB] @ ''2'' @ [CHR 0x0A]] = Inl IndexError"
  by (simp add: tree_eval)

text \<open>
  C4. A taxon that is not in the tree should be dropped silently. In the tree with the nodes
  root (1) and Bacteria (2, parent 1), \<^verbatim>\<open>filter_taxonomy_list(["Bacteria", "Archaea"], 1)\<close>
  raises \<^verbatim>\<open>AttributeError\<close>: the handler catches \<^verbatim>\<open>TypeError\<close> only. \<^verbatim>\<open>lca\<close>, whose handler
  catches \<^verbatim>\<open>AttributeError\<close>, skips the same taxon.
\<close>

theorem filter_unknown_taxon_raises:
  "add_node (add_node Map.empty ''root'' ''1'' ''1'') ''Bacteria'' ''2'' ''1'' ''Archaea'' = None \<and>
   filter_taxonomy_list (add_node (add_node Map.empty ''root'' ''1'' ''1'') ''Bacteria'' ''2'' ''1'')
     [''Bacteria'', ''Archaea''] 1 = Some (Inl AttributeError) \<and>
   lca (add_node (add_node Map.empty ''root'' ''1'' ''1'') ''Bacteria'' ''2'' ''1'')
     [''Bacteria'', ''Archaea''] (1 / 2) = Some (Inr ''Bacteria'')"
  by (simp add: tree_eval effective_threshold_def)

text \<open>
  C6. The threshold that \<^verbatim>\<open>lca\<close> uses should lie between 0.1 and 1. A threshold of 0.05 is
  neither above 1 nor below 0.01, so it is used as it is: on eleven taxa the count target is
  0.55 and the first taxon is returned at once, where the minimum of 0.1 (target 1.1) gives
  the common parent.
\<close>

theorem effective_threshold_below_tenth:
  "effective_threshold (5 / 100) = 5 / 100 \<and>
   \<not> (1 / 10 \<le> effective_threshold (5 / 100)) \<and>
   lca (add_node (add_node (add_node (add_node Map.empty ''root'' ''1'' ''1'') ''Bacteria'' ''2'' ''1'')
        ''Proteobacteria'' ''1224'' ''2'') ''Firmicutes'' ''1239'' ''2'')
     [''Proteobacteria'', ''Firmicutes'', ''Proteobacteria'', ''Firmicutes'', ''Proteobacteria'',
      ''Firmicutes'', ''Proteobacteria'', ''Firmicutes'', ''Proteobacteria'', ''Firmicutes'',
      ''Proteobacteria''] (5 / 100) = Some (Inr ''Proteobacteria'') \<and>
   lca (add_node (add_node (add_node (add_node Map.empty ''root'' ''1'' ''1'') ''Bacteria'' ''2'' ''1'')
        ''Proteobacteria'' ''1224'' ''2'') ''Firmicutes'' ''1239'' ''2'')
     [''Proteobacteria'', ''Firmicutes'', ''Proteobacteria'', ''Firmicutes'', ''Proteobacteria'',
      ''Firmicutes'', ''Proteobacteria'', ''Firmicutes'', ''Proteobacteria'', ''Firmicutes'',
      ''Proteobacteria''] (1 / 10) = Some (Inr ''Bacteria'')"
  by (simp add: tree_eval effective_threshold_def)

section \<open>When the Nettleton p-value is 1\<close>

lemma set_Counter: "set (Counter xs) = (\<lambda>x. (x, count_list xs x)) ` set xs"
  by (simp add: Counter_def set_first_seen)

lemma count_of_Counter: "count_of (Counter xs) k = count_list xs k"
proof -
  have "map_of (map (\<lambda>x. (x, count_list xs x)) ys) k = (if k \<in> set ys then Some (count_list xs k) else None)" for ys
    by (induction ys) auto
  then show ?thesis
    by (simp add: count_of_def Counter_def set_first_seen count_list_0_iff)
qed

lemma set_most_common: "set (most_common c) = set c"
  by (simp add: most_common_def)

lemma length_most_common: "length (most_common c) = length c"
  by (simp add: most_common_def)

lemma sorted_most_common: "sorted (map (\<lambda>(x, n). - int n) (most_common c))"
  by (simp add: most_common_def)

lemma most_common_nth_mono:
  assumes "i \<le> j" "j < length (most_common c)"
  shows "snd (most_common c ! j) \<le> snd (most_common c ! i)"
proof -
  have "map (\<lambda>(x, n). - int n) (most_common c) ! i \<le> map (\<lambda>(x, n). - int n) (most_common c) ! j"
    using assms sorted_most_common[of c] by (intro sorted_nth_mono) simp_all
  then show ?thesis using assms by (simp add: case_prod_beta)
qed

lemma max_count_ge:
  assumes "x \<in> set items" "x \<noteq> key"
  shows "\<exists>c2. max_count items key = Inr c2 \<and> count_list items x \<le> c2"
proof -
  let ?mc = "most_common (Counter items)"
  have "(x, count_list items x) \<in> set ?mc"
    using assms(1) by (simp add: set_most_common set_Counter)
  then obtain j where j: "j < length ?mc" "?mc ! j = (x, count_list items x)"
    by (auto simp: in_set_conv_nth)
  then have len: "0 < length ?mc" by auto
  show ?thesis
  proof (cases "fst (?mc ! 0) = key")
    case False
    have "snd (?mc ! j) \<le> snd (?mc ! 0)" using j by (intro most_common_nth_mono) simp_all
    then show ?thesis using False len j by (simp add: max_count_def item_def)
  next
    case True
    have "j \<noteq> 0"
    proof
      assume "j = 0"
      then have "fst (?mc ! 0) = x" using j(2) by simp
      then show False using True assms(2) by simp
    qed
    then have 1: "1 \<le> j" "1 < length ?mc" using j by auto
    then have "snd (?mc ! j) \<le> snd (?mc ! 1)" using j by (intro most_common_nth_mono) simp_all
    then show ?thesis using True len j 1 by (simp add: max_count_def item_def)
  qed
qed

text \<open>
  C7, as the code has it. When \<^verbatim>\<open>key\<close> occurs in \<^verbatim>\<open>items\<close>, \<^verbatim>\<open>nettleton_pvalue\<close> returns 1 for
  every single-element input, whenever the count of \<^verbatim>\<open>key\<close> does not exceed the runner-up
  count \<^verbatim>\<open>max_count\<close> that the test computes, and in particular whenever some other item occurs
  at least as often as \<^verbatim>\<open>key\<close> (so whenever the top two counts are equal).
\<close>

theorem nettleton_pvalue_one:
  assumes "key \<in> set items"
    and "length items = 1 \<or>
         (\<exists>c2. max_count items key = Inr c2 \<and> count_list items key \<le> c2) \<or>
         (\<exists>x \<in> set items. x \<noteq> key \<and> count_list items key \<le> count_list items x)"
  shows "nettleton_pvalue items key = Inr 1"
proof -
  consider "length items = 1"
    | c2 where "max_count items key = Inr c2" "count_list items key \<le> c2"
    | x where "x \<in> set items" "x \<noteq> key" "count_list items key \<le> count_list items x"
    using assms(2) by blast
  then show ?thesis
  proof cases
    case 1
    then show ?thesis using assms(1) by (simp add: nettleton_pvalue_def)
  next
    case 2
    then show ?thesis using assms(1) by (simp add: nettleton_pvalue_def count_of_Counter)
  next
    case 3
    from max_count_ge[OF 3(1,2)] obtain c2 where "max_count items key = Inr c2" "count_list items x \<le> c2"
      by blast
    then show ?thesis using assms(1) 3(3) by (simp add: nettleton_pvalue_def count_of_Counter)
  qed
qed

theorem nettleton_pvalue_one_witness:
  "''a'' \<in> set [''a'', ''b'', ''b'', ''a''] \<and>
   count_list [''a'', ''b'', ''b'', ''a''] ''a'' \<le> count_list [''a'', ''b'', ''b'', ''a''] ''b'' \<and>
   nettleton_pvalue [''a'', ''b'', ''b'', ''a''] ''a'' = Inr 1"
  using nettleton_pvalue_one [of "''a''" "[''a'', ''b'', ''b'', ''a'']"] by simp

text \<open>
  C7 as stated covers keys that do not occur in \<^verbatim>\<open>items\<close>: their count, 0, does not exceed
  the runner-up count. There the function fails its \<^verbatim>\<open>assert key in items\<close> and returns
  nothing, also on a single-element input.
\<close>

theorem nettleton_pvalue_absent_key_counterexample:
  "length [''a''] = 1 \<and> nettleton_pvalue [''a''] ''b'' = Inl AssertionError \<and>
   count_list [''a'', ''a''] ''b'' \<le> count_list [''a'', ''a''] ''a'' \<and>
   max_count [''a'', ''a''] ''b'' = Inr 2 \<and>
   nettleton_pvalue [''a'', ''a''] ''b'' = Inl AssertionError"
  by (simp add: nettleton_pvalue_def max_count_def most_common_def Counter_def first_seen_def item_def)

section \<open>The lowest common ancestor at threshold 1\<close>

lemma climbs_deterministic: "climbs tree x p \<Longrightarrow> climbs tree x q \<Longrightarrow> p = q"
proof (induction arbitrary: q rule: climbs.induct)
  case (climbs_root tree)
  then show ?case by (auto elim: climbs.cases)
next
  case (climbs_step x tree n p)
  from climbs_step.prems climbs_step.hyps(1,2) obtain q' where "q = x # q'" "climbs tree (parent_id n) q'"
    by (auto elim: climbs.cases)
  then show ?case using climbs_step.IH by simp
qed

lemma climbs_suffix: "climbs tree x p \<Longrightarrow> p = pre @ y # rest \<Longrightarrow> climbs tree y (y # rest)"
proof (induction arbitrary: pre rule: climbs.induct)
  case (climbs_root tree)
  then show ?case by simp
next
  case (climbs_step x tree n p)
  show ?case
  proof (cases pre)
    case Nil
    then show ?thesis using climbs_step.prems climbs_step.hyps by (auto intro: climbs.climbs_step)
  next
    case (Cons a pre')
    then have "p = pre' @ y # rest" using climbs_step.prems by simp
    then show ?thesis by (rule climbs_step.IH)
  qed
qed

lemma climbs_distinct: "climbs tree x p \<Longrightarrow> distinct p"
proof (induction rule: climbs.induct)
  case (climbs_root tree)
  then show ?case by simp
next
  case (climbs_step x tree n p)
  have "x \<notin> set p"
  proof
    assume "x \<in> set p"
    then obtain pre rest where p: "p = pre @ x # rest" by (auto simp: in_set_conv_decomp)
    from climbs_suffix[OF climbs_step.hyps(3) p] have "climbs tree x (x # rest)" .
    moreover have "climbs tree x (x # p)" using climbs_step.hyps by (rule climbs.climbs_step)
    ultimately have "rest = p" using climbs_deterministic by blast
    with p show False by (metis append_Cons append_self_conv2 list.distinct(1))
  qed
  then show ?case using climbs_step.IH by simp
qed

lemma climbs_not_root: "climbs tree x p \<Longrightarrow> ''1'' \<notin> set p"
  by (induction rule: climbs.induct) auto

lemma climbs_in_dom: "climbs tree x p \<Longrightarrow> y \<in> set p \<Longrightarrow> y \<in> dom tree"
  by (induction rule: climbs.induct) auto

lemma lca_walk_unfold:
  "x \<noteq> ''1'' \<Longrightarrow> tree x = Some n \<Longrightarrow>
   lca_walk tree target counts x =
     (if real (counts x + 1) \<ge> target then Some (Inr (Some (taxonomy n), counts(x := counts x + 1)))
      else lca_walk tree target (counts(x := counts x + 1)) (parent_id n))"
  by (subst lca_walk.simps) (simp add: Let_def)

lemma lca_walk_scan:
  "climbs tree cur p \<Longrightarrow>
   lca_walk tree target counts cur =
     Some (Inr (case scan counts target p of
                  (None, c) \<Rightarrow> (None, c)
                | (Some x, c) \<Rightarrow> (Some (taxonomy (the (tree x))), c)))"
proof (induction arbitrary: counts rule: climbs.induct)
  case (climbs_root tree)
  then show ?case by (subst lca_walk.simps) simp
next
  case (climbs_step x tree n p)
  have "lca_walk tree target counts x =
     (if real (counts x + 1) \<ge> target then Some (Inr (Some (taxonomy n), counts(x := counts x + 1)))
      else lca_walk tree target (counts(x := counts x + 1)) (parent_id n))"
    using climbs_step.hyps(1,2) by (rule lca_walk_unfold)
  moreover have "lca_walk tree target (counts(x := counts x + 1)) (parent_id n) =
     Some (Inr (case scan (counts(x := counts x + 1)) target p of
                  (None, c) \<Rightarrow> (None, c)
                | (Some x, c) \<Rightarrow> (Some (taxonomy (the (tree x))), c)))"
    by (rule climbs_step.IH)
  ultimately show ?case
    using climbs_step.hyps(2) by simp
qed

inductive_cases climbs_NilE: "climbs tree x []"
inductive_cases climbs_ConsE: "climbs tree x (a # p)"

lemma lineage_walk_climbs:
  "climbs tree x p \<Longrightarrow> lineage_walk tree x acc = Some (Inr (rev (tl (p @ [''1''])) @ acc))"
proof (induction arbitrary: acc rule: climbs.induct)
  case (climbs_root tree)
  then show ?case by (subst lineage_walk.simps) simp
next
  case (climbs_step x tree n p)
  have hd: "p @ [''1''] = parent_id n # tl (p @ [''1''])"
    using climbs_step.hyps(3) by (cases rule: climbs.cases) auto
  have "lineage_walk tree x acc = lineage_walk tree (parent_id n) (parent_id n # acc)"
    using climbs_step.hyps(1,2) by (subst lineage_walk.simps) simp
  also have "\<dots> = Some (Inr (rev (tl (p @ [''1''])) @ parent_id n # acc))"
    by (rule climbs_step.IH)
  also have "rev (tl (p @ [''1''])) @ parent_id n # acc = rev (parent_id n # tl (p @ [''1''])) @ acc"
    by simp
  finally show ?case using hd by simp
qed

lemma taxonomic_lineage_climbs:
  assumes "tree t = Some n" "climbs tree (node_id n) p"
  shows "taxonomic_lineage tree t = Some (Inr (''1'' # rev p))"
proof (cases p)
  case Nil
  then have "node_id n = ''1''" using assms(2) by (auto elim: climbs_NilE)
  then show ?thesis using assms(1) Nil
    by (simp add: taxonomic_lineage_def) (subst lineage_walk.simps, simp)
next
  case (Cons a p')
  then have a: "a = node_id n" using assms(2) by (auto elim: climbs_ConsE)
  have "lineage_walk tree (node_id n) [node_id n] = Some (Inr (rev (tl (p @ [''1''])) @ [node_id n]))"
    using assms(2) by (rule lineage_walk_climbs)
  then show ?thesis using assms(1) Cons a by (simp add: taxonomic_lineage_def)
qed

lemma lineage_walk_Inr_climbs:
  assumes "lineage_walk tree x acc = Some y"
  shows "(\<exists>l. y = Inr l) \<longrightarrow> (\<exists>p. climbs tree x p)"
proof (rule lineage_walk.raw_induct[rotated, OF assms])
  fix f :: "tree \<Rightarrow> string \<Rightarrow> string list \<Rightarrow> (error + string list) option"
    and tree x acc y
  assume IH: "\<And>tree x acc y. f tree x acc = Some y \<Longrightarrow> (\<exists>l. y = Inr l) \<longrightarrow> (\<exists>p. climbs tree x p)"
    and eq: "(if x = ''1'' then Some (Inr acc)
              else case tree x of None \<Rightarrow> Some (Inl AttributeError)
                   | Some n \<Rightarrow> f tree (parent_id n) (parent_id n # acc)) = Some y"
  show "(\<exists>l. y = Inr l) \<longrightarrow> (\<exists>p. climbs tree x p)"
  proof (cases "x = ''1''")
    case True
    then show ?thesis by (auto intro: climbs_root)
  next
    case False
    show ?thesis
    proof (cases "tree x")
      case None
      then show ?thesis using eq False by auto
    next
      case (Some n)
      then have "f tree (parent_id n) (parent_id n # acc) = Some y" using eq False by simp
      from IH[OF this] show ?thesis using False Some by (auto intro: climbs_step)
    qed
  qed
qed

text \<open>A tree is well-formed exactly when \<^verbatim>\<open>taxonomic_lineage\<close> returns a lineage for every key.\<close>

lemma wf_tree_lineage:
  "wf_tree tree \<longleftrightarrow> (\<forall>k \<in> dom tree. \<exists>l. taxonomic_lineage tree k = Some (Inr l))"
proof
  assume wf: "wf_tree tree"
  show "\<forall>k \<in> dom tree. \<exists>l. taxonomic_lineage tree k = Some (Inr l)"
  proof
    fix k assume "k \<in> dom tree"
    then obtain n where n: "tree k = Some n" by auto
    with wf obtain p where "climbs tree (node_id n) p" by (auto simp: wf_tree_def)
    with n show "\<exists>l. taxonomic_lineage tree k = Some (Inr l)"
      by (auto simp: taxonomic_lineage_climbs)
  qed
next
  assume r: "\<forall>k \<in> dom tree. \<exists>l. taxonomic_lineage tree k = Some (Inr l)"
  show "wf_tree tree"
    unfolding wf_tree_def
  proof (intro allI impI)
    fix k n assume n: "tree k = Some n"
    with r obtain l where "taxonomic_lineage tree k = Some (Inr l)" by auto
    with n have "lineage_walk tree (node_id n) [node_id n] = Some (Inr l)"
      by (simp add: taxonomic_lineage_def)
    from lineage_walk_Inr_climbs[OF this] show "\<exists>p. climbs tree (node_id n) p" by blast
  qed
qed

lemma scan_no_hit:
  "distinct p \<Longrightarrow> \<forall>x \<in> set p. real (counts x + 1) < target \<Longrightarrow>
   scan counts target p = (None, \<lambda>y. counts y + (if y \<in> set p then 1 else 0))"
proof (induction p arbitrary: counts)
  case Nil
  then show ?case by simp
next
  case (Cons x p)
  have "scan (counts(x := counts x + 1)) target p =
        (None, \<lambda>y. (counts(x := counts x + 1)) y + (if y \<in> set p then 1 else 0))"
    using Cons.prems by (intro Cons.IH) auto
  moreover have "(\<lambda>y. (counts(x := counts x + 1)) y + (if y \<in> set p then 1 else 0)) =
                 (\<lambda>y. counts y + (if y \<in> set (x # p) then 1 else 0))"
    using Cons.prems(1) by (auto simp: fun_eq_iff)
  ultimately show ?case using Cons.prems(2) by simp
qed

lemma scan_find:
  "distinct p \<Longrightarrow> fst (scan counts target p) = find (\<lambda>x. real (counts x + 1) \<ge> target) p"
proof (induction p arbitrary: counts)
  case Nil
  then show ?case by simp
next
  case (Cons x p)
  have "fst (scan (counts(x := counts x + 1)) target p) =
        find (\<lambda>y. real ((counts(x := counts x + 1)) y + 1) \<ge> target) p"
    using Cons.prems by (intro Cons.IH) simp
  also have "\<dots> = find (\<lambda>y. real (counts y + 1) \<ge> target) p"
    using Cons.prems by (intro find_cong) auto
  finally show ?case by simp
qed

lemma length_filter_eq_length: "length (filter P xs) = length xs \<longleftrightarrow> (\<forall>x \<in> set xs. P x)"
proof (induction xs)
  case Nil
  then show ?case by simp
next
  case (Cons x xs)
  have "length (filter P xs) \<le> length xs" by simp
  then have "length (filter P xs) \<noteq> Suc (length xs)" by arith
  then show ?case using Cons by auto
qed

lemma lca_loop_paths:
  assumes "list_all2 (\<lambda>t p. \<exists>n. tree t = Some n \<and> climbs tree (node_id n) p) ts ps"
    and "\<forall>x. counts x = length (filter (\<lambda>q. x \<in> set q) qs)"
  shows "lca_loop tree (real (length qs + length ps)) counts ts =
         Some (Inr (case ps of
                      [] \<Rightarrow> ''root''
                    | _ # _ \<Rightarrow>
                        (case find (\<lambda>x. \<forall>q \<in> set (qs @ butlast ps). x \<in> set q) (last ps) of
                           None \<Rightarrow> ''root''
                         | Some x \<Rightarrow> taxonomy (the (tree x)))))"
  using assms
proof (induction ts ps arbitrary: counts qs rule: list_all2_induct)
  case Nil
  then show ?case by simp
next
  case (Cons t ts p ps)
  from Cons.hyps(1) obtain n where n: "tree t = Some n" "climbs tree (node_id n) p" by blast
  have dp: "distinct p" using n(2) by (rule climbs_distinct)
  define N where "N = real (length qs + length (p # ps))"
  have walk: "lca_walk tree N counts (node_id n) =
     Some (Inr (case scan counts N p of
                  (None, c) \<Rightarrow> (None, c)
                | (Some x, c) \<Rightarrow> (Some (taxonomy (the (tree x))), c)))"
    using n(2) by (rule lca_walk_scan)
  have cnt_le: "counts x \<le> length qs" for x
    using Cons.prems by simp
  have "lca_loop tree N counts (t # ts) =
         Some (Inr (case find (\<lambda>x. \<forall>q \<in> set (qs @ butlast (p # ps)). x \<in> set q) (last (p # ps)) of
                      None \<Rightarrow> ''root''
                    | Some x \<Rightarrow> taxonomy (the (tree x))))"
  proof (cases ps)
    case Nil
    then have ts: "ts = []" using Cons.hyps(2) by simp
    have "(real (counts x + 1) \<ge> N) = (\<forall>q \<in> set qs. x \<in> set q)" for x
    proof -
      have "(real (counts x + 1) \<ge> N) = (counts x = length qs)"
        using cnt_le[of x] Nil by (auto simp: N_def)
      then show ?thesis using Cons.prems by (simp add: length_filter_eq_length)
    qed
    then have f: "fst (scan counts N p) = find (\<lambda>x. \<forall>q \<in> set qs. x \<in> set q) p"
      using scan_find[OF dp, of counts N] by simp
    obtain r c where sc: "scan counts N p = (r, c)" by (cases "scan counts N p")
    then have r: "find (\<lambda>x. \<forall>q \<in> set qs. x \<in> set q) p = r" using f by simp
    have "lca_loop tree N counts (t # ts) = Some (Inr (case r of None \<Rightarrow> ''root''
             | Some x \<Rightarrow> taxonomy (the (tree x))))"
      unfolding ts using n(1) by (cases r) (simp_all add: walk sc)
    then show ?thesis unfolding Nil by (simp add: r)
  next
    case (Cons p' ps')
    have "\<forall>x \<in> set p. real (counts x + 1) < N"
    proof
      fix x assume "x \<in> set p"
      have "counts x + 1 < length qs + length (p # ps)" using cnt_le[of x] Cons by simp
      then show "real (counts x + 1) < N" unfolding N_def by (simp only: of_nat_less_iff)
    qed
    from scan_no_hit[OF dp this]
    have sc: "scan counts N p = (None, \<lambda>y. counts y + (if y \<in> set p then 1 else 0))" .
    let ?c' = "\<lambda>y. counts y + (if y \<in> set p then 1 else 0)"
    have c': "\<forall>x. ?c' x = length (filter (\<lambda>q. x \<in> set q) (qs @ [p]))"
      using Cons.prems by simp
    have IH: "lca_loop tree (real (length (qs @ [p]) + length ps)) ?c' ts =
         Some (Inr (case ps of
                      [] \<Rightarrow> ''root''
                    | _ # _ \<Rightarrow>
                        (case find (\<lambda>x. \<forall>q \<in> set ((qs @ [p]) @ butlast ps). x \<in> set q) (last ps) of
                           None \<Rightarrow> ''root''
                         | Some x \<Rightarrow> taxonomy (the (tree x)))))"
      using c' by (rule Cons.IH)
    have N: "real (length (qs @ [p]) + length ps) = N" by (simp add: N_def)
    have "lca_loop tree N counts (t # ts) = lca_loop tree N ?c' ts"
      using n(1) by (simp add: walk sc)
    then show ?thesis
      using IH Cons unfolding N by simp
  qed
  then show ?case by (simp add: N_def)
qed

lemma ex_list_all2: "\<forall>x \<in> set xs. \<exists>y. R x y \<Longrightarrow> \<exists>ys. list_all2 R xs ys"
proof (induction xs)
  case Nil
  then show ?case by simp
next
  case (Cons x xs)
  then obtain y ys where "R x y" "list_all2 R xs ys" by auto
  then have "list_all2 R (x # xs) (y # ys)" by simp
  then show ?case by blast
qed

lemma ancestors_climbs: "climbs tree x p \<Longrightarrow> ancestors tree x = insert ''1'' (set p)"
  using climbs_deterministic by (auto simp: ancestors_def)

lemma taxon_lineage_climbs:
  "tree t = Some n \<Longrightarrow> climbs tree (node_id n) p \<Longrightarrow> taxon_lineage tree t = insert ''1'' (set p)"
  by (simp add: taxon_lineage_def taxonomic_lineage_climbs)

lemma common_paths:
  assumes "list_all2 (\<lambda>t p. \<exists>n. tree t = Some n \<and> climbs tree (node_id n) p) L ps"
  shows "(\<forall>t \<in> set L. y \<in> taxon_lineage tree t) \<longleftrightarrow> (\<forall>p \<in> set ps. y \<in> insert ''1'' (set p))"
  using assms by (induction L ps rule: list_all2_induct) (auto simp: taxon_lineage_climbs)

lemma paths_climb:
  assumes "list_all2 (\<lambda>t p. \<exists>n. tree t = Some n \<and> climbs tree (node_id n) p) L ps" "p \<in> set ps"
  shows "\<exists>c. climbs tree c p"
  using assms by (induction L ps rule: list_all2_induct) auto

text \<open>
  C5. For every list \<open>L\<close> of taxa that are all present in a well-formed tree,
  \<^verbatim>\<open>lca(L, 1.0)\<close> returns. For a non-empty \<open>L\<close> there is an id \<open>x\<close> that lies on the lineage
  of every element of \<open>L\<close> and is the deepest such id (every id common to all the lineages
  is \<open>x\<close> or lies above \<open>x\<close>), and the call returns the name of the node of \<open>x\<close>, or
  \<^verbatim>\<open>"root"\<close> when \<open>x\<close> is the root \<^verbatim>\<open>"1"\<close>, which is the case where no id reaches the count
  target. For the empty list it returns \<^verbatim>\<open>"root"\<close>.
\<close>

theorem lca_deepest_common_ancestor:
  assumes "wf_tree tree" and "set L \<subseteq> dom tree"
  shows "(L = [] \<longrightarrow> lca tree L 1 = Some (Inr ''root'')) \<and>
         (L \<noteq> [] \<longrightarrow>
            (\<exists>x. (\<forall>t \<in> set L. x \<in> taxon_lineage tree t) \<and>
                 (\<forall>y. (\<forall>t \<in> set L. y \<in> taxon_lineage tree t) \<longrightarrow> y \<in> ancestors tree x) \<and>
                 (x \<noteq> ''1'' \<longrightarrow> x \<in> dom tree) \<and>
                 lca tree L 1 =
                   Some (Inr (if x = ''1'' then ''root'' else taxonomy (the (tree x))))))"
proof -
  let ?R = "\<lambda>t p. \<exists>n. tree t = Some n \<and> climbs tree (node_id n) p"
  have "\<forall>t \<in> set L. \<exists>p. ?R t p"
    using assms by (fastforce simp: wf_tree_def dom_def)
  then obtain ps where ps: "list_all2 ?R L ps" using ex_list_all2[of L ?R] by blast
  then have len: "length ps = length L" by (simp add: list_all2_lengthD)
  have "lca_loop tree (real (length ([] :: string list list) + length ps)) (\<lambda>_. 0) L =
         Some (Inr (case ps of
                      [] \<Rightarrow> ''root''
                    | _ # _ \<Rightarrow>
                        (case find (\<lambda>x. \<forall>q \<in> set ([] @ butlast ps). x \<in> set q) (last ps) of
                           None \<Rightarrow> ''root''
                         | Some x \<Rightarrow> taxonomy (the (tree x)))))"
    by (rule lca_loop_paths[OF ps, of "\<lambda>_. 0" "[]"]) simp
  moreover have "real (length L) * effective_threshold 1 =
      real (length ([] :: string list list) + length ps)"
    by (simp add: effective_threshold_def len)
  ultimately have res: "lca tree L 1 =
         Some (Inr (case ps of
                      [] \<Rightarrow> ''root''
                    | _ # _ \<Rightarrow>
                        (case find (\<lambda>x. \<forall>q \<in> set (butlast ps). x \<in> set q) (last ps) of
                           None \<Rightarrow> ''root''
                         | Some x \<Rightarrow> taxonomy (the (tree x)))))"
    unfolding lca_def append_Nil by (simp only:)
  have empty: "lca tree L 1 = Some (Inr ''root'')" if "L = []"
    using that res len by simp
  have nonempty: "\<exists>x. (\<forall>t \<in> set L. x \<in> taxon_lineage tree t) \<and>
                 (\<forall>y. (\<forall>t \<in> set L. y \<in> taxon_lineage tree t) \<longrightarrow> y \<in> ancestors tree x) \<and>
                 (x \<noteq> ''1'' \<longrightarrow> x \<in> dom tree) \<and>
                 lca tree L 1 =
                   Some (Inr (if x = ''1'' then ''root'' else taxonomy (the (tree x))))"
    if "L \<noteq> []"
  proof -
    from that len have ne: "ps \<noteq> []" by auto
    define pl where "pl = last ps"
    define P where "P = (\<lambda>x. \<forall>q \<in> set (butlast ps). x \<in> set q)"
    have set_ps: "set ps = insert pl (set (butlast ps))"
    proof -
      have "set ps = set (butlast ps @ [last ps])" using ne by simp
      then show ?thesis by (simp add: pl_def)
    qed
    have all_iff: "(\<forall>p \<in> set ps. y \<in> set p) \<longleftrightarrow> y \<in> set pl \<and> P y" for y
      by (auto simp: set_ps P_def)
    obtain c where c: "climbs tree c pl"
      using paths_climb[OF ps, of pl] set_ps by auto
    have common: "(\<forall>t \<in> set L. y \<in> taxon_lineage tree t) \<longleftrightarrow> y = ''1'' \<or> (y \<in> set pl \<and> P y)" for y
      using common_paths[OF ps, of y] all_iff[of y] ne by (cases "y = ''1''") auto
    have res': "lca tree L 1 =
         Some (Inr (case find P pl of None \<Rightarrow> ''root'' | Some x \<Rightarrow> taxonomy (the (tree x))))"
      using res ne by (cases ps) (simp_all add: P_def pl_def)
    show ?thesis
    proof (cases "find P pl")
      case None
      then have noP: "\<not> (y \<in> set pl \<and> P y)" for y by (auto simp: find_None_iff)
      have "ancestors tree ''1'' = {''1''}"
        using ancestors_climbs[OF climbs_root, of tree] by simp
      then have deep1: "y \<in> ancestors tree ''1''" if "\<forall>t \<in> set L. y \<in> taxon_lineage tree t" for y
        using that common[of y] noP[of y] by simp
      have c1: "\<forall>t \<in> set L. ''1'' \<in> taxon_lineage tree t" using common[of "''1''"] by simp
      have r1: "lca tree L 1 = Some (Inr ''root'')" using res' None by simp
      show ?thesis
        by (rule exI[of _ "''1''"]) (use deep1 c1 r1 in simp)
    next
      case (Some x)
      then obtain i where i: "i < length pl" "P (pl ! i)" "x = pl ! i" "\<forall>j<i. \<not> P (pl ! j)"
        by (auto simp: find_Some_iff)
      have x_in: "x \<in> set pl" using i by simp
      have x1: "x \<noteq> ''1''" using climbs_not_root[OF c] x_in by auto
      have xd: "x \<in> dom tree" using climbs_in_dom[OF c x_in] .
      have dec: "pl = take i pl @ x # drop (Suc i) pl"
        using i(1,3) by (simp add: id_take_nth_drop)
      have cx: "climbs tree x (x # drop (Suc i) pl)"
        using climbs_suffix[OF c dec] .
      have anc: "ancestors tree x = insert ''1'' (set (drop i pl))"
        using ancestors_climbs[OF cx] i(1,3) by (simp add: Cons_nth_drop_Suc)
      have deep: "y \<in> ancestors tree x" if "y \<in> set pl" "P y" for y
      proof -
        from that(1) obtain k where k: "k < length pl" "y = pl ! k" by (auto simp: in_set_conv_nth)
        with that(2) i(4) have "i \<le> k" by (metis not_le_imp_less)
        then have "drop i pl ! (k - i) = y" "k - i < length (drop i pl)" using k by simp_all
        then have "y \<in> set (drop i pl)" using nth_mem by blast
        then show ?thesis by (simp add: anc)
      qed
      have a1: "''1'' \<in> ancestors tree x" by (simp add: anc)
      have deepx: "y \<in> ancestors tree x" if "\<forall>t \<in> set L. y \<in> taxon_lineage tree t" for y
        using that common[of y] a1 deep[of y] by blast
      have cx: "\<forall>t \<in> set L. x \<in> taxon_lineage tree t"
        using common[of x] x_in i(2,3) by simp
      have rx: "lca tree L 1 = Some (Inr (taxonomy (the (tree x))))" using res' Some by simp
      show ?thesis
        by (rule exI[of _ x]) (use deepx cx rx x1 xd in simp)
    qed
  qed
  from empty nonempty show ?thesis by blast
qed

text \<open>
  The tree root (1), Bacteria (2), Proteobacteria (1224) and Firmicutes (1239), the last two
  below Bacteria: the lowest common ancestor of Proteobacteria and 1239 is Bacteria.
\<close>

theorem lca_deepest_common_ancestor_witness:
  "wf_tree (add_node (add_node (add_node (add_node Map.empty ''root'' ''1'' ''1'') ''Bacteria'' ''2'' ''1'')
        ''Proteobacteria'' ''1224'' ''2'') ''Firmicutes'' ''1239'' ''2'') \<and>
   set [''Proteobacteria'', ''1239''] \<subseteq> dom (add_node (add_node (add_node (add_node Map.empty ''root'' ''1'' ''1'') ''Bacteria'' ''2'' ''1'')
        ''Proteobacteria'' ''1224'' ''2'') ''Firmicutes'' ''1239'' ''2'') \<and>
   lca (add_node (add_node (add_node (add_node Map.empty ''root'' ''1'' ''1'') ''Bacteria'' ''2'' ''1'')
        ''Proteobacteria'' ''1224'' ''2'') ''Firmicutes'' ''1239'' ''2'') [''Proteobacteria'', ''1239''] 1
     = Some (Inr ''Bacteria'') \<and>
   (\<exists>x. (\<forall>t \<in> set [''Proteobacteria'', ''1239'']. x \<in> taxon_lineage (add_node (add_node (add_node (add_node Map.empty ''root'' ''1'' ''1'') ''Bacteria'' ''2'' ''1'')
        ''Proteobacteria'' ''1224'' ''2'') ''Firmicutes'' ''1239'' ''2'') t) \<and>
        x \<noteq> ''1'' \<and>
        taxonomy (the ((add_node (add_node (add_node (add_node Map.empty ''root'' ''1'' ''1'') ''Bacteria'' ''2'' ''1'')
        ''Proteobacteria'' ''1224'' ''2'') ''Firmicutes'' ''1239'' ''2'') x)) = ''Bacteria'')"
proof -
  define T where "T = add_node (add_node (add_node (add_node Map.empty ''root'' ''1'' ''1'') ''Bacteria'' ''2'' ''1'')
        ''Proteobacteria'' ''1224'' ''2'') ''Firmicutes'' ''1239'' ''2''"
  have c1: "climbs T ''1'' []" by (rule climbs_root)
  have c2: "climbs T ''2'' [''2'']"
  proof (rule climbs_step)
    show "''2'' \<noteq> ''1''" by simp
    show "T ''2'' = Some \<lparr>taxonomy = ''Bacteria'', node_id = ''2'', parent_id = ''1''\<rparr>"
      by (simp add: T_def add_node_def)
    show "climbs T (parent_id \<lparr>taxonomy = ''Bacteria'', node_id = ''2'', parent_id = ''1''\<rparr>) []"
      using c1 by simp
  qed
  have c3: "climbs T ''1224'' [''1224'', ''2'']"
  proof (rule climbs_step)
    show "''1224'' \<noteq> ''1''" by simp
    show "T ''1224'' = Some \<lparr>taxonomy = ''Proteobacteria'', node_id = ''1224'', parent_id = ''2''\<rparr>"
      by (simp add: T_def add_node_def)
    show "climbs T (parent_id \<lparr>taxonomy = ''Proteobacteria'', node_id = ''1224'', parent_id = ''2''\<rparr>) [''2'']"
      using c2 by simp
  qed
  have c4: "climbs T ''1239'' [''1239'', ''2'']"
  proof (rule climbs_step)
    show "''1239'' \<noteq> ''1''" by simp
    show "T ''1239'' = Some \<lparr>taxonomy = ''Firmicutes'', node_id = ''1239'', parent_id = ''2''\<rparr>"
      by (simp add: T_def add_node_def)
    show "climbs T (parent_id \<lparr>taxonomy = ''Firmicutes'', node_id = ''1239'', parent_id = ''2''\<rparr>) [''2'']"
      using c2 by simp
  qed
  have nid: "node_id n \<in> {''1'', ''2'', ''1224'', ''1239''}" if "T k = Some n" for k n
    using that by (auto simp: T_def add_node_def split: if_splits)
  have wf: "wf_tree T"
    unfolding wf_tree_def
  proof (intro allI impI)
    fix k n assume "T k = Some n"
    then have "node_id n \<in> {''1'', ''2'', ''1224'', ''1239''}" by (rule nid)
    then show "\<exists>p. climbs T (node_id n) p" using c1 c2 c3 c4 by auto
  qed
  have pres: "set [''Proteobacteria'', ''1239''] \<subseteq> dom T"
    by (simp add: T_def add_node_def)
  have ev: "lca T [''Proteobacteria'', ''1239''] 1 = Some (Inr ''Bacteria'')"
    by (simp add: T_def tree_eval effective_threshold_def)
  from lca_deepest_common_ancestor [OF wf pres]
  obtain x where x: "\<forall>t \<in> set [''Proteobacteria'', ''1239'']. x \<in> taxon_lineage T t"
    "lca T [''Proteobacteria'', ''1239''] 1 =
       Some (Inr (if x = ''1'' then ''root'' else taxonomy (the (T x))))"
    by auto
  from x(2) have "x \<noteq> ''1'' \<and> taxonomy (the (T x)) = ''Bacteria''"
    unfolding ev by (simp split: if_splits)
  with x(1) have "\<exists>x. (\<forall>t \<in> set [''Proteobacteria'', ''1239'']. x \<in> taxon_lineage T t) \<and>
        x \<noteq> ''1'' \<and> taxonomy (the (T x)) = ''Bacteria''"
    by blast
  with wf pres ev show ?thesis
    unfolding T_def by (intro conjI)
qed

end
